theory Spec2Isabelle
  imports Complex_Main "HOL-Library.Word"
begin

unbundle bit_operations_syntax

section \<open>Bytes, constants and Python helpers\<close>

text \<open>
  A Python \<open>bytes\<close> object is a list of 8-bit words. Indexing a \<open>bytes\<close> object gives a
  Python integer in \<open>0..255\<close>, which is \<open>uint\<close> of the byte; \<open>bytes([n])\<close> for such an
  integer is \<open>word_of_int n\<close>. Python integers are unbounded and modelled as \<open>int\<close>;
  lengths and offsets, which are never negative in the code, are \<open>nat\<close>.
\<close>

type_synonym byte = "8 word"
type_synonym bytes = "byte list"

definition DATA_PCK_LEN :: nat where
  "DATA_PCK_LEN = 32"

definition DATA_BYTES :: nat where
  "DATA_BYTES = 31"

definition ACK_LEN :: nat where
  "ACK_LEN = 2"

text \<open>
  The exceptions that the modelled code can raise: \<open>ValueError\<close> (raised by
  \<open>make_packet\<close>, by a write to a closed file and by \<open>settimeout\<close> for a negative
  timeout), \<open>struct.error\<close> (raised by \<open>struct.pack("<I", n)\<close> when \<open>n\<close> does not fit
  32 bits) and \<open>BlockingIOError\<close> (raised by \<open>recvfrom\<close> on a non-blocking socket that
  has no datagram).
\<close>

datatype error = ValueError | StructError | BlockingIOError

text \<open>
  A wire byte made of a Python integer, \<open>bytes([n & 0xFF])\<close>, and the integer that
  indexing a \<open>bytes\<close> object gives, \<open>b[i]\<close>.
\<close>

definition byte_of :: "int \<Rightarrow> byte" where
  "byte_of n = word_of_int (n AND 0xFF)"

definition byte_at :: "bytes \<Rightarrow> nat \<Rightarrow> int" where
  "byte_at b i = uint (b ! i)"

text \<open>The slice \<open>xs[a:b]\<close> for non-negative \<open>a\<close> and \<open>b\<close>, and \<open>xs.ljust(w, b"\x00")\<close>.\<close>

definition bytes_slice :: "'a list \<Rightarrow> nat \<Rightarrow> nat \<Rightarrow> 'a list" where
  "bytes_slice xs a b = take (b - a) (drop a xs)"

definition ljust :: "nat \<Rightarrow> bytes \<Rightarrow> bytes" where
  "ljust w xs = xs @ replicate (w - length xs) 0"

text \<open>
  The number that a byte string denotes when read as a little-endian unsigned integer.
  \<open>struct.unpack("<I", bs)[0]\<close> is this number for a four-byte \<open>bs\<close>.
\<close>

fun le_nat :: "bytes \<Rightarrow> nat" where
  "le_nat [] = 0"
| "le_nat (b # bs) = unat b + 256 * le_nat bs"

text \<open>
  \<open>struct.pack("<I", n)\<close>: the four bytes of \<open>n\<close>, least significant first; the call
  raises \<open>struct.error\<close> when \<open>n\<close> is not below \<open>2 ^ 32\<close>.
\<close>

definition pack_u32_le :: "nat \<Rightarrow> error + bytes" where
  "pack_u32_le n =
     (if n < 2 ^ 32
      then Inr [of_nat n, of_nat (n div 256), of_nat (n div 65536), of_nat (n div 16777216)]
      else Inl StructError)"

section \<open>Packet codec (tx.py)\<close>

text \<open>
  \<^verbatim>\<open>
  def make_packet(pck_num: int, data: bytes) -> bytes:
      if len(data) != DATA_BYTES:
          raise ValueError("Data must be exactly 31 bytes")
      return bytes([pck_num & 0xFF]) + data
  \<close>
\<close>

definition make_packet :: "int \<Rightarrow> bytes \<Rightarrow> error + bytes" where
  "make_packet pck_num data =
     (if length data \<noteq> DATA_BYTES then Inl ValueError
      else Inr (byte_of pck_num # data))"

section \<open>Chunk producer (tx.py)\<close>

text \<open>
  \<^verbatim>\<open>
  def data_for_file(path: str):
      with open(path, "rb") as f:
          data_r = f.read()
      total_len = len(data_r)
      first_data_only_data = data_r[:27]
      first_data = struct.pack("<I", total_len) + first_data_only_data
      first_data = first_data.ljust(31, b"\x00")
      yield first_data
      offset = 27
      while offset < total_len:
          data = data_r[offset: offset + 31]
          data = data.ljust(31, b"\x00")
          yield data
          offset += 31
  \<close>
  The model takes the content \<open>data_r\<close> of the file. The generator has no effect besides
  the chunks it yields, so it is modelled by the list of the chunks in the order in which
  they are yielded; \<open>struct.pack\<close> is evaluated before the first \<open>yield\<close>, so when it
  raises, no chunk has been produced. The \<open>while\<close> loop is \<open>rest_chunks\<close>.
\<close>

function rest_chunks :: "bytes \<Rightarrow> nat \<Rightarrow> nat \<Rightarrow> bytes list" where
  "rest_chunks data_r total_len offset =
     (if offset < total_len
      then ljust 31 (bytes_slice data_r offset (offset + 31))
             # rest_chunks data_r total_len (offset + 31)
      else [])"
  by pat_completeness auto
termination
  by (relation "measure (\<lambda>(data_r, total_len, offset). total_len - offset)") auto

declare rest_chunks.simps [simp del]

definition data_for_file :: "bytes \<Rightarrow> error + bytes list" where
  "data_for_file data_r =
     (let total_len = length data_r;
          first_data_only_data = bytes_slice data_r 0 27
      in case pack_u32_le total_len of
           Inl e \<Rightarrow> Inl e
         | Inr hdr \<Rightarrow>
             Inr (ljust 31 (hdr @ first_data_only_data) # rest_chunks data_r total_len 27))"

section \<open>Random numbers and the channel loss/delay policy\<close>

text \<open>
  Both programs use Python's module \<open>random\<close>: \<open>random.seed(args.seed)\<close> once at the
  start, then \<open>random.random()\<close> and \<open>random.randint(a, b)\<close>. The generator is library
  code; it is a parameter of the model: a type \<open>'g\<close> of generator states, the state that
  a seed gives, and the two draws, each returning its value and the next state. A float
  is modelled as a real number: the code only compares floats, and the loss probabilities
  are taken to be numbers (not NaN).
\<close>

record 'g rng_ops =
  random_seed :: "int \<Rightarrow> 'g"
  random_random :: "'g \<Rightarrow> real \<times> 'g"
  random_randint :: "int \<Rightarrow> int \<Rightarrow> 'g \<Rightarrow> int \<times> 'g"

text \<open>
  \<^verbatim>\<open>
  def random_delay(min_ms: int, max_ms: int):
      time.sleep(random.randint(min_ms, max_ms) / 1000.0)
  \<close>
  The model returns the delay in milliseconds, which the caller adds to its clock, and
  the next generator state. The model is about settings with well-formed delay bounds,
  \<open>0 \<le> min_ms \<le> max_ms\<close>, and draws within them. With other settings the program
  ends by an exception at the first message that is not suppressed: \<open>randint\<close> raises
  \<open>ValueError\<close> for \<open>min_ms > max_ms\<close> and \<open>sleep\<close> raises it for a negative delay. This
  exit is not modelled.
\<close>

definition random_delay :: "'g rng_ops \<Rightarrow> int \<Rightarrow> int \<Rightarrow> 'g \<Rightarrow> int \<times> 'g" where
  "random_delay R min_ms max_ms g = random_randint R min_ms max_ms g"

text \<open>What the loss/delay policy decides for one outbound message.\<close>

datatype decision = Suppress | Deliver int

section \<open>Receiver (rx.py)\<close>

record rx_config =
  LOSS_ACK_PROB :: real
  ACK_DELAY_MS_MIN :: int
  ACK_DELAY_MS_MAX :: int

text \<open>
  The local variables of \<open>main\<close> that live across iterations of the receive loop, the
  output file (its content and whether it has been closed) and the generator.
  \<open>is_done\<close> is the variable \<open>done\<close>.
\<close>

record 'g rx_state =
  last_delivered_pck_num :: "int option"
  expected_total_len :: "nat option"
  bytes_written :: nat
  out_f :: bytes
  out_f_closed :: bool
  is_done :: bool
  rx_rng :: 'g

text \<open>An Ack that the receiver built, with what the policy did to it.\<close>

datatype ack_event = AckSent bytes int | AckDropped bytes

fun ack_bytes :: "ack_event \<Rightarrow> bytes" where
  "ack_bytes (AckSent ack d) = ack"
| "ack_bytes (AckDropped ack) = ack"

fun ack_decision :: "ack_event \<Rightarrow> decision" where
  "ack_decision (AckSent ack d) = Deliver d"
| "ack_decision (AckDropped ack) = Suppress"

datatype loop_ctl = Continue | Break

text \<open>\<open>out_f.write(to_write)\<close>: a write to a closed file raises \<open>ValueError\<close>.\<close>

definition file_write :: "'g rx_state \<Rightarrow> bytes \<Rightarrow> error + 'g rx_state" where
  "file_write st to_write =
     (if out_f_closed st then Inl ValueError
      else Inr (st\<lparr>out_f := out_f st @ to_write\<rparr>))"

text \<open>
  The reply to a datagram of the wrong length (lines 86 to 101):
  \<^verbatim>\<open>
  pck_num = pck[0] if len(pck) >= 1 else 0
  status = 2
  ack = bytes([pck_num & 0xFF, status])
  if random.random() >= LOSS_ACK_PROB:
      random_delay(ACK_DELAY_MS_MIN, ACK_DELAY_MS_MAX)
      sock.sendto(ack, (RX_HOST, TX_ACK_PORT))
  else:
      ...  # ACK DROPPED
  continue
  \<close>
\<close>

definition bad_length_ack :: "bytes \<Rightarrow> bytes" where
  "bad_length_ack pck =
     (let pck_num = (if length pck \<ge> 1 then byte_at pck 0 else 0);
          status = 2
      in [byte_of pck_num, byte_of status])"

definition send_bad_length_ack ::
  "'g rng_ops \<Rightarrow> rx_config \<Rightarrow> 'g \<Rightarrow> bytes \<Rightarrow> ack_event \<times> 'g" where
  "send_bad_length_ack R C g ack =
     (let (r, g1) = random_random R g in
      if r \<ge> LOSS_ACK_PROB C
      then (let (d, g2) = random_delay R (ACK_DELAY_MS_MIN C) (ACK_DELAY_MS_MAX C) g1
            in (AckSent ack d, g2))
      else (AckDropped ack, g1))"

text \<open>
  The reply to a datagram of 32 bytes (lines 146 to 156):
  \<^verbatim>\<open>
  ack = bytes([pck_num & 0xFF, status])
  ack_dropped = random.random() < LOSS_ACK_PROB
  if ack_dropped:
      ...  # ACK DROPPED
  else:
      random_delay(ACK_DELAY_MS_MIN, ACK_DELAY_MS_MAX)
      sock.sendto(ack, (RX_HOST, TX_ACK_PORT))
  \<close>
\<close>

definition send_ack ::
  "'g rng_ops \<Rightarrow> rx_config \<Rightarrow> 'g \<Rightarrow> bytes \<Rightarrow> ack_event \<times> 'g" where
  "send_ack R C g ack =
     (let (r, g1) = random_random R g;
          ack_dropped = r < LOSS_ACK_PROB C
      in if ack_dropped then (AckDropped ack, g1)
         else (let (d, g2) = random_delay R (ACK_DELAY_MS_MIN C) (ACK_DELAY_MS_MAX C) g1
               in (AckSent ack d, g2)))"

text \<open>
  The body of the \<open>else\<close> branch for a new packet (lines 113 to 143): the first chunk
  carries the total length in its first four bytes; at most the missing bytes are
  written; when the file is complete it is closed and \<open>done\<close> is set.
\<close>

definition accept_new :: "'g rx_state \<Rightarrow> int \<Rightarrow> bytes \<Rightarrow> error + 'g rx_state" where
  "accept_new st pck_num data =
     (let st1 = st\<lparr>last_delivered_pck_num := Some pck_num\<rparr>;
          written =
            (case expected_total_len st1 of
               None \<Rightarrow>
                 (let etl = le_nat (bytes_slice data 0 4);
                      actual_data = drop 4 data;
                      to_write = take (nat (max 0 (int etl - int (bytes_written st1)))) actual_data
                  in case file_write (st1\<lparr>expected_total_len := Some etl\<rparr>) to_write of
                       Inl e \<Rightarrow> Inl e
                     | Inr st2 \<Rightarrow>
                         Inr (st2\<lparr>bytes_written := bytes_written st2 + length to_write\<rparr>))
             | Some etl \<Rightarrow>
                 (let to_write = take (nat (max 0 (int etl - int (bytes_written st1)))) data
                  in case file_write st1 to_write of
                       Inl e \<Rightarrow> Inl e
                     | Inr st2 \<Rightarrow>
                         Inr (st2\<lparr>bytes_written := bytes_written st2 + length to_write\<rparr>)))
      in case written of
           Inl e \<Rightarrow> Inl e
         | Inr st3 \<Rightarrow>
             (case expected_total_len st3 of
                Some etl \<Rightarrow>
                  if bytes_written st3 \<ge> etl
                  then Inr (st3\<lparr>out_f_closed := True, is_done := True\<rparr>)
                  else Inr (st3\<lparr>is_done := False\<rparr>)
              | None \<Rightarrow> Inr (st3\<lparr>is_done := False\<rparr>)))"

text \<open>
  One iteration of the receive loop on the datagram \<open>pck\<close> that \<open>recvfrom\<close> returned:
  the control decision (\<open>continue\<close> or \<open>break\<close>), the Ack and its fate, and the next
  state; or the exception that ends the program.
\<close>

definition rx_step ::
  "'g rng_ops \<Rightarrow> rx_config \<Rightarrow> 'g rx_state \<Rightarrow> bytes \<Rightarrow>
     error + (loop_ctl \<times> ack_event \<times> 'g rx_state)" where
  "rx_step R C st pck =
     (if length pck \<noteq> DATA_PCK_LEN
      then (let (ev, g) = send_bad_length_ack R C (rx_rng st) (bad_length_ack pck)
            in Inr (Continue, ev, st\<lparr>rx_rng := g\<rparr>))
      else
        (let pck_num = byte_at pck 0;
             data = drop 1 pck
         in case (if last_delivered_pck_num st = Some pck_num then Inr (1, st)
                  else (case accept_new st pck_num data of
                          Inl e \<Rightarrow> Inl e
                        | Inr st1 \<Rightarrow> Inr (0, st1))) of
              Inl e \<Rightarrow> Inl e
            | Inr (status, st1) \<Rightarrow>
                (let ack = [byte_of pck_num, byte_of status];
                     (ev, g) = send_ack R C (rx_rng st1) ack;
                     ack_dropped = (ack_decision ev = Suppress)
                 in Inr (if is_done st1 \<and> \<not> ack_dropped then Break else Continue,
                         ev, st1\<lparr>rx_rng := g\<rparr>))))"

text \<open>
  The state before the loop, and the loop over the datagrams that arrive, in their order
  of arrival. The loop ends by \<open>break\<close>, or by an exception; when the datagrams are used up
  the receiver is blocked in \<open>recvfrom\<close>, which has no timeout.
\<close>

definition rx_init :: "'g rng_ops \<Rightarrow> int \<Rightarrow> 'g rx_state" where
  "rx_init R seed =
     \<lparr>last_delivered_pck_num = None, expected_total_len = None, bytes_written = 0,
      out_f = [], out_f_closed = False, is_done = False, rx_rng = random_seed R seed\<rparr>"

datatype 'g rx_outcome = RxFinished "'g rx_state" | RxListening "'g rx_state" | RxRaised error

fun rx_loop ::
  "'g rng_ops \<Rightarrow> rx_config \<Rightarrow> 'g rx_state \<Rightarrow> bytes list \<Rightarrow> ack_event list \<times> 'g rx_outcome"
  where
  "rx_loop R C st [] = ([], RxListening st)"
| "rx_loop R C st (pck # rest) =
     (case rx_step R C st pck of
        Inl e \<Rightarrow> ([], RxRaised e)
      | Inr (Break, ev, st') \<Rightarrow> ([ev], RxFinished st')
      | Inr (Continue, ev, st') \<Rightarrow>
          (let (evs, outcome) = rx_loop R C st' rest in (ev # evs, outcome)))"

definition rx_main ::
  "'g rng_ops \<Rightarrow> rx_config \<Rightarrow> int \<Rightarrow> bytes list \<Rightarrow> ack_event list \<times> 'g rx_outcome" where
  "rx_main R C seed datagrams = rx_loop R C (rx_init R seed) datagrams"

text \<open>The states that the receive loop can be in at the start of an iteration.\<close>

inductive rx_reachable :: "'g rng_ops \<Rightarrow> rx_config \<Rightarrow> int \<Rightarrow> 'g rx_state \<Rightarrow> bool"
  for R :: "'g rng_ops" and C :: rx_config and seed :: int where
  rx_reachable_init: "rx_reachable R C seed (rx_init R seed)"
| rx_reachable_step:
    "rx_reachable R C seed st \<Longrightarrow> rx_step R C st pck = Inr (Continue, ev, st') \<Longrightarrow>
       rx_reachable R C seed st'"

text \<open>
  The invariant of the session that the receive loop maintains: before the first packet
  nothing has been written; afterwards \<open>bytes_written\<close> stays within the expected total
  length, \<open>done\<close> says that the length has been reached, the file is closed exactly then,
  and \<open>bytes_written\<close> counts the bytes of the output.
\<close>

definition rx_inv :: "'g rx_state \<Rightarrow> bool" where
  "rx_inv st =
     ((case expected_total_len st of
         None \<Rightarrow> bytes_written st = 0 \<and> \<not> is_done st
       | Some etl \<Rightarrow> bytes_written st \<le> etl \<and> (is_done st \<longleftrightarrow> etl \<le> bytes_written st)) \<and>
      out_f_closed st = is_done st \<and> length (out_f st) = bytes_written st)"

section \<open>Sender (tx.py)\<close>

record tx_config =
  MAX_RETRIES :: int
  RTT_TIMEOUT_MS :: int
  LOSS_DATA_PROB :: real
  DATA_DELAY_MS_MIN :: int
  DATA_DELAY_MS_MAX :: int

text \<open>
  The sender sleeps and waits with a timeout, so its model carries a clock, in
  milliseconds. The Ack socket is the list of the datagrams that will arrive on it, each
  with its arrival time, in the order in which \<open>recvfrom\<close> returns them. \<open>main\<close> sets the
  timeout of the socket once, \<open>ack_sock.settimeout(RTT_TIMEOUT_MS / 1000.0)\<close>:
  \<^item> a negative timeout is refused: \<open>settimeout\<close> raises \<open>ValueError\<close> (see \<open>tx_main\<close>);
  \<^item> a positive timeout bounds each single call of \<open>recvfrom\<close>: a call made at time
    \<open>now\<close> returns the next datagram if it arrives by \<open>now + timeout\<close> (at once if it is
    already there) and raises \<open>socket.timeout\<close> at \<open>now + timeout\<close> otherwise;
  \<^item> a timeout of zero makes the socket non-blocking: \<open>recvfrom\<close> returns the next
    datagram if it is already there and raises \<open>BlockingIOError\<close> otherwise, which is
    not a \<open>socket.timeout\<close>.
\<close>

type_synonym inbox = "(nat \<times> bytes) list"

datatype recv_result = Datagram bytes | SocketTimeout | WouldBlock

fun recvfrom :: "nat \<Rightarrow> nat \<Rightarrow> inbox \<Rightarrow> recv_result \<times> nat \<times> inbox" where
  "recvfrom timeout now [] =
     (if timeout = 0 then (WouldBlock, now, []) else (SocketTimeout, now + timeout, []))"
| "recvfrom timeout now ((t, d) # rest) =
     (if t \<le> now + timeout then (Datagram d, max now t, rest)
      else if timeout = 0 then (WouldBlock, now, (t, d) # rest)
      else (SocketTimeout, now + timeout, (t, d) # rest))"

text \<open>
  \<^verbatim>\<open>
  def wait_for_ack(ack_sock, expected_pck_num):
      while True:
          try:
              ack, addr = ack_sock.recvfrom(1024)
          except socket.timeout:
              return None
          if len(ack) != ACK_LEN:
              continue
          pck_num , status = ack[0], ack[1]
          if pck_num != (expected_pck_num & 0xFF):
              continue
          return status
  \<close>
  Every iteration but the last consumes a datagram, so the loop is a recursion on the
  datagrams still to arrive. The result is the status (or \<open>None\<close>), the time at which the
  function returns, and the datagrams not yet received; or the exception that the
  \<open>try\<close> does not catch.
\<close>

fun wait_for_ack ::
  "nat \<Rightarrow> int \<Rightarrow> nat \<Rightarrow> inbox \<Rightarrow> error + (int option \<times> nat \<times> inbox)" where
  "wait_for_ack timeout expected_pck_num now [] =
     (if timeout = 0 then Inl BlockingIOError else Inr (None, now + timeout, []))"
| "wait_for_ack timeout expected_pck_num now ((t, d) # rest) =
     (case recvfrom timeout now ((t, d) # rest) of
        (SocketTimeout, now', inbox') \<Rightarrow> Inr (None, now', inbox')
      | (WouldBlock, now', inbox') \<Rightarrow> Inl BlockingIOError
      | (Datagram ack, now', inbox') \<Rightarrow>
          if length ack \<noteq> ACK_LEN then wait_for_ack timeout expected_pck_num now' rest
          else (let pck_num = byte_at ack 0; status = byte_at ack 1 in
                if pck_num \<noteq> expected_pck_num AND 0xFF
                then wait_for_ack timeout expected_pck_num now' rest
                else Inr (Some status, now', inbox')))"

text \<open>
  For comparison, the wait that the specification words describe: a single deadline,
  fixed when the attempt starts, which a discarded datagram does not move. This
  definition follows the specification, not the code.
\<close>

fun spec_wait_one_deadline :: "nat \<Rightarrow> int \<Rightarrow> nat \<Rightarrow> inbox \<Rightarrow> int option \<times> nat \<times> inbox" where
  "spec_wait_one_deadline deadline expected_pck_num now [] = (None, deadline, [])"
| "spec_wait_one_deadline deadline expected_pck_num now ((t, ack) # rest) =
     (if deadline < t then (None, deadline, (t, ack) # rest)
      else if length ack \<noteq> ACK_LEN \<or> byte_at ack 0 \<noteq> expected_pck_num AND 0xFF
      then spec_wait_one_deadline deadline expected_pck_num (max now t) rest
      else (Some (byte_at ack 1), max now t, rest))"

text \<open>
  Two notions for stating what a wait does with the datagrams that it discards. A list of
  datagrams arrives in time when \<open>recvfrom\<close> returns each of them: the first by one
  timeout after \<open>now\<close>, each later one by one timeout after the reception of the one
  before it. The last reception is the time at which the last of them is received (a
  datagram that is already there is received at once); it is \<open>now\<close> for no datagram.
\<close>

fun arrive_in_time :: "nat \<Rightarrow> nat \<Rightarrow> inbox \<Rightarrow> bool" where
  "arrive_in_time timeout now [] = True"
| "arrive_in_time timeout now ((t, d) # rest) =
     (t \<le> now + timeout \<and> arrive_in_time timeout (max now t) rest)"

fun last_reception :: "nat \<Rightarrow> inbox \<Rightarrow> nat" where
  "last_reception now [] = now"
| "last_reception now ((t, d) # rest) = last_reception (max now t) rest"

text \<open>
  What the sender does and prints, in order: a simulated drop (sequence number and
  attempt number) and a real \<open>sendto\<close> (sequence number, attempt number, the packet and
  the delay slept before it), the outcome of each wait (a timeout, a confirming status 0
  or 1, another status), and the failure of a chunk.
\<close>

datatype tx_event =
    DataDropped int int
  | DataSent int int bytes int
  | AckTimeout int int
  | Confirmed int int
  | StatusRetry int int
  | ChunkFailed int

record 'g tx_state =
  tx_rng :: 'g
  tx_now :: nat
  tx_inbox :: inbox
  tx_log :: "tx_event list"

text \<open>
  \<^verbatim>\<open>
  def send_with_retries(tx_sock, ack_sock, pck_num, pck):
      for attempt in range(1, MAX_RETRIES + 1):
          if random.random() < LOSS_DATA_PROB:
              pass                                   # DROPPED
          else:
              random_delay(DATA_DELAY_MS_MIN, DATA_DELAY_MS_MAX)
              tx_sock.sendto(pck, (RX_HOST, RX_PORT))
          status = wait_for_ack(ack_sock, pck_num)
          if status is None:
              continue
          if status in (0, 1):
              return True
      return False
  \<close>
  \<open>transmit\<close> is the first statement of the loop body, \<open>send_attempts\<close> the loop over the
  attempt numbers that are left. An exception that \<open>wait_for_ack\<close> lets through ends the
  program. The timeout of the socket is the one that \<open>main\<close> has set; \<open>main\<close> does not get
  here with a negative one.
\<close>

definition transmit ::
  "'g rng_ops \<Rightarrow> tx_config \<Rightarrow> int \<Rightarrow> bytes \<Rightarrow> int \<Rightarrow> 'g tx_state \<Rightarrow> 'g tx_state" where
  "transmit R C pck_num pck attempt st =
     (let (r, g1) = random_random R (tx_rng st) in
      if r < LOSS_DATA_PROB C
      then st\<lparr>tx_rng := g1, tx_log := tx_log st @ [DataDropped pck_num attempt]\<rparr>
      else (let (d, g2) = random_delay R (DATA_DELAY_MS_MIN C) (DATA_DELAY_MS_MAX C) g1;
                now' = tx_now st + nat d
            in st\<lparr>tx_rng := g2, tx_now := now',
                  tx_log := tx_log st @ [DataSent pck_num attempt pck d]\<rparr>))"

fun send_attempts ::
  "'g rng_ops \<Rightarrow> tx_config \<Rightarrow> int \<Rightarrow> bytes \<Rightarrow> int list \<Rightarrow> 'g tx_state \<Rightarrow>
     error + (bool \<times> 'g tx_state)"
  where
  "send_attempts R C pck_num pck [] st =
     Inr (False, st\<lparr>tx_log := tx_log st @ [ChunkFailed pck_num]\<rparr>)"
| "send_attempts R C pck_num pck (attempt # attempts) st =
     (let st1 = transmit R C pck_num pck attempt st in
      case wait_for_ack (nat (RTT_TIMEOUT_MS C)) pck_num (tx_now st1) (tx_inbox st1) of
        Inl e \<Rightarrow> Inl e
      | Inr (status, now', inbox') \<Rightarrow>
          (let st2 = st1\<lparr>tx_now := now', tx_inbox := inbox'\<rparr> in
           case status of
             None \<Rightarrow>
               send_attempts R C pck_num pck attempts
                 (st2\<lparr>tx_log := tx_log st2 @ [AckTimeout pck_num attempt]\<rparr>)
           | Some status \<Rightarrow>
               if status = 0 \<or> status = 1
               then Inr (True, st2\<lparr>tx_log := tx_log st2 @ [Confirmed pck_num status]\<rparr>)
               else send_attempts R C pck_num pck attempts
                      (st2\<lparr>tx_log := tx_log st2 @ [StatusRetry pck_num status]\<rparr>)))"

definition send_with_retries ::
  "'g rng_ops \<Rightarrow> tx_config \<Rightarrow> int \<Rightarrow> bytes \<Rightarrow> 'g tx_state \<Rightarrow>
     error + (bool \<times> 'g tx_state)" where
  "send_with_retries R C pck_num pck st = send_attempts R C pck_num pck [1..MAX_RETRIES C] st"

text \<open>
  The transmit loop of \<open>main\<close> (lines 175 to 192) over the chunks that \<open>data_for_file\<close>
  yields, and the counters that \<open>main\<close> prints at the end. Before the loop \<open>main\<close> seeds the
  generator and sets the timeout of the Ack socket (line 170), where a negative timeout
  raises \<open>ValueError\<close>.
  \<^verbatim>\<open>
  pck_num = 0; sent_data_chunks = 0; success_data_chunks = 0
  for data_chunk in data_for_file(args.input_file):
      pck = make_packet(pck_num, data_chunk)
      success = send_with_retries(tx_sock, ack_sock, pck_num, pck)
      sent_data_chunks += 1
      if not success:
          break
      success_data_chunks += 1
      pck_num ^= 1
  \<close>
\<close>

record 'g tx_result =
  pck_num_final :: int
  sent_data_chunks :: nat
  success_data_chunks :: nat
  tx_final :: "'g tx_state"

fun tx_loop ::
  "'g rng_ops \<Rightarrow> tx_config \<Rightarrow> int \<Rightarrow> nat \<Rightarrow> nat \<Rightarrow> bytes list \<Rightarrow> 'g tx_state \<Rightarrow>
     error + 'g tx_result" where
  "tx_loop R C pck_num sent succeeded [] st =
     Inr \<lparr>pck_num_final = pck_num, sent_data_chunks = sent,
          success_data_chunks = succeeded, tx_final = st\<rparr>"
| "tx_loop R C pck_num sent succeeded (data_chunk # chunks) st =
     (case make_packet pck_num data_chunk of
        Inl e \<Rightarrow> Inl e
      | Inr pck \<Rightarrow>
          (case send_with_retries R C pck_num pck st of
             Inl e \<Rightarrow> Inl e
           | Inr (success, st') \<Rightarrow>
               if \<not> success
               then Inr \<lparr>pck_num_final = pck_num, sent_data_chunks = sent + 1,
                         success_data_chunks = succeeded, tx_final = st'\<rparr>
               else tx_loop R C (pck_num XOR 1) (sent + 1) (succeeded + 1) chunks st'))"

definition tx_main ::
  "'g rng_ops \<Rightarrow> tx_config \<Rightarrow> int \<Rightarrow> bytes \<Rightarrow> inbox \<Rightarrow> error + 'g tx_result" where
  "tx_main R C seed data_r acks =
     (if RTT_TIMEOUT_MS C < 0 then Inl ValueError
      else case data_for_file data_r of
             Inl e \<Rightarrow> Inl e
           | Inr chunks \<Rightarrow>
               tx_loop R C 0 0 0 chunks
                 \<lparr>tx_rng = random_seed R seed, tx_now = 0, tx_inbox = acks, tx_log = []\<rparr>)"

section \<open>Reading the logs\<close>

text \<open>
  The events of the sender's log by kind: the transmission attempts (a drop or a send),
  the confirmations and the failures; and the sequence number that an event names.
\<close>

fun is_attempt :: "tx_event \<Rightarrow> bool" where
  "is_attempt (DataDropped n a) = True"
| "is_attempt (DataSent n a pck d) = True"
| "is_attempt e = False"

fun is_confirmed :: "tx_event \<Rightarrow> bool" where
  "is_confirmed (Confirmed n status) = True"
| "is_confirmed e = False"

fun is_failed :: "tx_event \<Rightarrow> bool" where
  "is_failed (ChunkFailed n) = True"
| "is_failed e = False"

fun event_pck_num :: "tx_event \<Rightarrow> int" where
  "event_pck_num (DataDropped n a) = n"
| "event_pck_num (DataSent n a pck d) = n"
| "event_pck_num (AckTimeout n a) = n"
| "event_pck_num (Confirmed n status) = n"
| "event_pck_num (StatusRetry n status) = n"
| "event_pck_num (ChunkFailed n) = n"

text \<open>What the policy decided in a transmission attempt of the sender.\<close>

fun tx_decision :: "tx_event \<Rightarrow> decision" where
  "tx_decision (DataSent n a pck d) = Deliver d"
| "tx_decision e = Suppress"

text \<open>
  The sequence numbers that the specification prescribes for a log: the number starts at
  \<open>n\<close> and flips between 0 and 1 exactly after each confirmation. This definition
  follows the specification, not the code.
\<close>

fun spec_alternating_from :: "int \<Rightarrow> tx_event list \<Rightarrow> int list" where
  "spec_alternating_from n [] = []"
| "spec_alternating_from n (e # es) = n # spec_alternating_from (if is_confirmed e then 1 - n else n) es"

text \<open>
  The channel loss/delay policy as the specification states it: one uniform draw decides
  whether the message is suppressed (with probability \<open>p\<close>); a message that is not
  suppressed is delayed by a second draw from \<open>min_ms..max_ms\<close>. \<open>spec_policy_run\<close> applies the
  policy to \<open>n\<close> messages in a row, from the generator state \<open>g\<close>. These definitions
  follow the specification; the theorems compare the three places of the code that
  implement the policy with them.
\<close>

definition spec_loss_delay_policy ::
  "'g rng_ops \<Rightarrow> real \<Rightarrow> int \<Rightarrow> int \<Rightarrow> 'g \<Rightarrow> decision \<times> 'g" where
  "spec_loss_delay_policy R p min_ms max_ms g =
     (let (r, g1) = random_random R g in
      if r < p then (Suppress, g1)
      else (let (d, g2) = random_randint R min_ms max_ms g1 in (Deliver d, g2)))"

fun spec_policy_run ::
  "'g rng_ops \<Rightarrow> real \<Rightarrow> int \<Rightarrow> int \<Rightarrow> 'g \<Rightarrow> nat \<Rightarrow> decision list \<times> 'g" where
  "spec_policy_run R p min_ms max_ms g 0 = ([], g)"
| "spec_policy_run R p min_ms max_ms g (Suc n) =
     (let (d, g1) = spec_loss_delay_policy R p min_ms max_ms g;
          (ds, g2) = spec_policy_run R p min_ms max_ms g1 n
      in (d # ds, g2))"

section \<open>The settings of the source, and a small generator\<close>

text \<open>
  The module-level defaults of \<open>rx.py\<close> and \<open>tx.py\<close>, and a generator with a counter as
  its state, on which the model can be run: its floats cycle through 0, 1/4, 1/2, 3/4
  and its integers stay within the bounds given.
\<close>

definition default_rx_config :: rx_config where
  "default_rx_config =
     \<lparr>LOSS_ACK_PROB = 8 / 100, ACK_DELAY_MS_MIN = 25, ACK_DELAY_MS_MAX = 40\<rparr>"

definition default_tx_config :: tx_config where
  "default_tx_config =
     \<lparr>MAX_RETRIES = 5, RTT_TIMEOUT_MS = 1000, LOSS_DATA_PROB = 15 / 100,
      DATA_DELAY_MS_MIN = 300, DATA_DELAY_MS_MAX = 400\<rparr>"

definition counter_rng :: "nat rng_ops" where
  "counter_rng =
     \<lparr>random_seed = (\<lambda>seed. nat \<bar>seed\<bar>),
      random_random = (\<lambda>g. (real (g mod 4) / 4, Suc g)),
      random_randint = (\<lambda>a b g. (a + int g mod (b - a + 1), Suc g))\<rparr>"

section \<open>Properties of the codec and of the chunk producer\<close>

lemma and_255_mod: "(n::int) AND 255 = n mod 256"
proof -
  have "(255::int) = mask 8"
    by (simp add: mask_eq_exp_minus_1)
  then have "n AND 255 = take_bit 8 n"
    by (simp add: take_bit_eq_mask)
  then show ?thesis
    by (simp add: take_bit_eq_mod)
qed

lemma uint_and_255: "uint (b::byte) AND 255 = uint b"
  using uint_lt2p [of b] by (simp add: and_255_mod)

lemma chunk_count_step:
  assumes "offset < (total_len::nat)"
  shows "(total_len - offset + 30) div 31 = Suc ((total_len - (offset + 31) + 30) div 31)"
proof (cases "offset + 31 \<le> total_len")
  case True
  then have "total_len - offset + 30 = (total_len - (offset + 31) + 30) + 31"
    by simp
  then show ?thesis
    by (simp only: div_add_self2)
next
  case False
  with assms have "31 \<le> total_len - offset + 30" "total_len - offset + 30 < 62"
    and z: "total_len - (offset + 31) = 0"
    by simp_all
  then have "(total_len - offset + 30) div 31 = 1"
    by (intro div_nat_eqI) simp_all
  with z show ?thesis
    by simp
qed

lemma le_bytes_sum:
  assumes "(n::nat) < 2 ^ 32"
  shows "n mod 256 + 256 * (n div 256 mod 256 + 256 * (n div 65536 mod 256
           + 256 * (n div 16777216 mod 256))) = n"
proof -
  have q2: "n div 65536 = n div 256 div 256"
    by (simp add: div_mult2_eq)
  have q3: "n div 16777216 = n div 256 div 256 div 256"
    by (simp add: div_mult2_eq)
  from assms have "n div 16777216 < 256"
    by (intro less_mult_imp_div_less) simp
  then have top: "n div 16777216 mod 256 = n div 256 div 256 div 256"
    by (simp add: q3)
  have step: "m mod 256 + 256 * (m div 256) = m" for m :: nat
    by simp
  show ?thesis
    by (simp only: q2 top step)
qed

lemma length_rest_chunks:
  "length (rest_chunks data_r total_len offset) = (total_len - offset + 30) div 31"
proof (induction data_r total_len offset rule: rest_chunks.induct)
  case (1 data_r total_len offset)
  show ?case
  proof (cases "offset < total_len")
    case True
    then have "(total_len - offset + 30) div 31 = Suc ((total_len - (offset + 31) + 30) div 31)"
      by (rule chunk_count_step)
    with True "1.IH" show ?thesis
      by (subst rest_chunks.simps) simp
  next
    case False
    then show ?thesis
      by (subst rest_chunks.simps) simp
  qed
qed

lemma nth_rest_chunks:
  "k < length (rest_chunks data_r total_len offset) \<Longrightarrow>
     rest_chunks data_r total_len offset ! k =
       ljust 31 (bytes_slice data_r (offset + 31 * k) (offset + 31 * k + 31))"
proof (induction data_r total_len offset arbitrary: k rule: rest_chunks.induct)
  case (1 data_r total_len offset)
  show ?case
  proof (cases "offset < total_len")
    case True
    note lt = this
    show ?thesis
    proof (cases k)
      case 0
      with lt show ?thesis
        by (subst rest_chunks.simps) simp
    next
      case (Suc j)
      with lt "1.prems" have "j < length (rest_chunks data_r total_len (offset + 31))"
        by (subst (asm) rest_chunks.simps) simp
      with lt have "rest_chunks data_r total_len (offset + 31) ! j =
          ljust 31 (bytes_slice data_r (offset + 31 + 31 * j) (offset + 31 + 31 * j + 31))"
        by (rule "1.IH")
      with lt Suc show ?thesis
        by (subst rest_chunks.simps) (simp add: add.assoc add.commute add.left_commute)
    qed
  next
    case False
    with "1.prems" show ?thesis
      by (subst (asm) rest_chunks.simps) simp
  qed
qed

lemma length_ljust: "length xs \<le> w \<Longrightarrow> length (ljust w xs) = w"
  by (simp add: ljust_def)

lemma length_bytes_slice_31: "length (bytes_slice xs a (a + 31)) \<le> 31"
  by (simp add: bytes_slice_def)

lemma rest_chunks_all_31: "c \<in> set (rest_chunks data_r total_len offset) \<Longrightarrow> length c = 31"
proof -
  assume "c \<in> set (rest_chunks data_r total_len offset)"
  then obtain k where k: "k < length (rest_chunks data_r total_len offset)"
    and c: "c = rest_chunks data_r total_len offset ! k"
    by (auto simp: in_set_conv_nth)
  from k c show ?thesis
    by (simp add: nth_rest_chunks length_ljust length_bytes_slice_31)
qed

lemma pack_u32_le_value:
  assumes "n < 2 ^ 32"
  shows "\<exists>hdr. pack_u32_le n = Inr hdr \<and> length hdr = 4 \<and> le_nat hdr = n"
proof -
  from le_bytes_sum [OF assms] assms show ?thesis
    by (simp add: pack_u32_le_def unat_of_nat)
qed


text \<open>
  C1, for streams whose length fits the four-byte length field. For a stream of
  \<open>N < 2 ^ 32\<close> bytes the chunk producer yields one chunk if \<open>N \<le> 27\<close> and
  \<open>1 + ceil ((N - 27) / 31)\<close> chunks otherwise (the ceiling is \<open>(N - 27 + 30) div 31\<close>).
  Chunk 0 is the four-byte little-endian encoding of \<open>N\<close>, then the first
  \<open>min 27 N\<close> stream bytes, padded with zeros to 31 bytes. Chunk \<open>k > 0\<close> is the (up to
  31) stream bytes at offset \<open>27 + 31 * (k - 1)\<close>, padded with zeros to 31 bytes.
\<close>

theorem data_for_file_chunks:
  assumes "length data_r < 2 ^ 32"
  shows "\<exists>chunks hdr. data_for_file data_r = Inr chunks \<and>
    length chunks =
      (if length data_r \<le> 27 then 1 else 1 + (length data_r - 27 + 30) div 31) \<and>
    length hdr = 4 \<and> le_nat hdr = length data_r \<and>
    chunks ! 0 = hdr @ take (min 27 (length data_r)) data_r
                   @ replicate (27 - min 27 (length data_r)) 0 \<and>
    (\<forall>k. 0 < k \<and> k < length chunks \<longrightarrow>
       chunks ! k = take 31 (drop (27 + 31 * (k - 1)) data_r)
                      @ replicate (31 - length (take 31 (drop (27 + 31 * (k - 1)) data_r))) 0) \<and>
    (\<forall>c \<in> set chunks. length c = 31)"
proof -
  from pack_u32_le_value [OF assms] obtain hdr
    where hdr: "pack_u32_le (length data_r) = Inr hdr" "length hdr = 4"
      "le_nat hdr = length data_r"
    by blast
  let ?first = "ljust 31 (hdr @ bytes_slice data_r 0 27)"
  let ?rest = "rest_chunks data_r (length data_r) 27"
  let ?chunks = "?first # ?rest"
  have run: "data_for_file data_r = Inr ?chunks"
    by (simp add: data_for_file_def hdr)
  have len: "length ?chunks =
      (if length data_r \<le> 27 then 1 else 1 + (length data_r - 27 + 30) div 31)"
    by (simp add: length_rest_chunks)
  have first: "?chunks ! 0 = hdr @ take (min 27 (length data_r)) data_r
                   @ replicate (27 - min 27 (length data_r)) 0"
    using hdr(2) by (simp add: ljust_def bytes_slice_def min_def)
  have later: "?chunks ! k = take 31 (drop (27 + 31 * (k - 1)) data_r)
        @ replicate (31 - length (take 31 (drop (27 + 31 * (k - 1)) data_r))) 0"
    if "0 < k" "k < length ?chunks" for k
  proof -
    from that obtain j where j: "k = Suc j"
      by (cases k) auto
    with that have "j < length ?rest"
      by simp
    then have "?rest ! j = ljust 31 (bytes_slice data_r (27 + 31 * j) (27 + 31 * j + 31))"
      by (rule nth_rest_chunks)
    with j show ?thesis
      by (simp add: ljust_def bytes_slice_def)
  qed
  have all31: "length c = 31" if "c \<in> set ?chunks" for c
  proof (cases "c = ?first")
    case True
    with hdr(2) show ?thesis
      by (simp add: ljust_def bytes_slice_def)
  next
    case False
    with that have "c \<in> set ?rest"
      by simp
    then show ?thesis
      by (rule rest_chunks_all_31)
  qed
  show ?thesis
  proof (intro exI conjI allI impI ballI)
    show "data_for_file data_r = Inr ?chunks"
      by (rule run)
    show "length ?chunks =
        (if length data_r \<le> 27 then 1 else 1 + (length data_r - 27 + 30) div 31)"
      by (rule len)
    show "length hdr = 4" "le_nat hdr = length data_r"
      by (rule hdr)+
    show "?chunks ! 0 = hdr @ take (min 27 (length data_r)) data_r
                   @ replicate (27 - min 27 (length data_r)) 0"
      by (rule first)
    show "?chunks ! k = take 31 (drop (27 + 31 * (k - 1)) data_r)
        @ replicate (31 - length (take 31 (drop (27 + 31 * (k - 1)) data_r))) 0"
      if "0 < k \<and> k < length ?chunks" for k
      using that by (intro later) simp_all
    show "length c = 31" if "c \<in> set ?chunks" for c
      using that by (rule all31)
  qed
qed

theorem data_for_file_chunks_witness:
  "length (replicate 50 (7::byte)) < 2 ^ 32 \<and>
   (\<exists>chunks. data_for_file (replicate 50 7) = Inr chunks \<and> length chunks = 2 \<and>
      chunks ! 1 = replicate 23 7 @ replicate 8 0)"
proof -
  have h: "length (replicate 50 (7::byte)) < 2 ^ 32"
    by simp
  from data_for_file_chunks [OF h] obtain chunks
    where run: "data_for_file (replicate 50 7) = Inr chunks"
      and len: "length chunks = 2"
      and later: "\<forall>k. 0 < k \<and> k < length chunks \<longrightarrow>
         chunks ! k = take 31 (drop (27 + 31 * (k - 1)) (replicate 50 (7::byte)))
           @ replicate (31 - length (take 31 (drop (27 + 31 * (k - 1)) (replicate 50 (7::byte))))) 0"
    by auto
  from len later have "chunks ! 1 = take 31 (drop (27 + 31 * (1 - 1)) (replicate 50 (7::byte)))
           @ replicate (31 - length (take 31 (drop (27 + 31 * (1 - 1)) (replicate 50 (7::byte))))) 0"
    by (intro later [rule_format]) simp
  then have "chunks ! 1 = replicate 23 7 @ replicate 8 0"
    by simp
  with h run len show ?thesis
    by blast
qed

text \<open>
  The length restriction cannot be dropped: for a stream of \<open>2 ^ 32\<close> bytes
  \<open>struct.pack\<close> raises before the first chunk is yielded, so no chunk is produced.
\<close>

theorem data_for_file_length_counterexample:
  "length (replicate 4294967296 (0::byte)) = 4294967296 \<and>
   data_for_file (replicate 4294967296 0) = Inl StructError"
  by (simp add: data_for_file_def pack_u32_le_def)

text \<open>
  C10. \<open>make_packet\<close> raises \<open>ValueError\<close> exactly when the payload does not have 31
  bytes. For a payload of 31 bytes and any integer sequence number it returns a packet of
  32 bytes: the first byte is the sequence number modulo 256, the rest is the payload.
\<close>

theorem make_packet_spec:
  "(make_packet pck_num data = Inl ValueError \<longleftrightarrow> length data \<noteq> 31) \<and>
   (length data = 31 \<longrightarrow>
      (\<exists>pck. make_packet pck_num data = Inr pck \<and> length pck = 32 \<and>
         uint (hd pck) = pck_num mod 256 \<and> tl pck = data))"
  by (simp add: make_packet_def byte_of_def DATA_BYTES_def and_255_mod uint_word_of_int)

theorem make_packet_spec_witness:
  "make_packet (-1) (replicate 31 7) = Inr (255 # replicate 31 7) \<and>
   make_packet 258 [1, 2, 3] = Inl ValueError"
proof -
  have "length (replicate 31 (7::byte)) = 31"
    by simp
  with make_packet_spec [of "-1" "replicate 31 7"]
  obtain pck where p: "make_packet (-1) (replicate 31 7) = Inr pck"
    and h: "uint (hd pck) = (-1) mod 256" and t: "tl pck = replicate 31 7"
    and l: "length pck = 32"
    by blast
  from l obtain b bs where pck: "pck = b # bs"
    by (cases pck) auto
  from h pck have "uint b = 255"
    by simp
  then have "b = 255"
    by (metis word_of_int_uint word_of_int_numeral)
  with p t pck have first: "make_packet (-1) (replicate 31 7) = Inr (255 # replicate 31 7)"
    by simp
  have "length [1, 2, 3 :: byte] \<noteq> 31"
    by simp
  with make_packet_spec [of 258 "[1, 2, 3]"]
  have "make_packet 258 [1, 2, 3] = Inl ValueError"
    by blast
  with first show ?thesis
    by simp
qed

section \<open>Properties of the receiver\<close>

lemma byte_of_byte_at: "byte_of (byte_at b i) = b ! i"
  by (simp add: byte_of_def byte_at_def uint_and_255)

lemma byte_of_small [simp]: "byte_of 0 = 0" "byte_of 1 = 1" "byte_of 2 = 2"
  by (simp_all add: byte_of_def and_255_mod)

lemma ack_bytes_send_bad_length_ack: "ack_bytes (fst (send_bad_length_ack R C g ack)) = ack"
  by (simp add: send_bad_length_ack_def Let_def split: prod.splits)

lemma ack_bytes_send_ack: "ack_bytes (fst (send_ack R C g ack)) = ack"
  by (simp add: send_ack_def Let_def split: prod.splits)

text \<open>
  C5. A datagram whose length is not 32 bytes changes nothing of the transfer session:
  the state after the iteration is the state before it but for the random generator
  (the expected total length, \<open>bytes_written\<close>, the last delivered sequence number and
  the output are the same), whatever the datagram holds. The loop continues, and the Ack
  built carries status \<open>BAD_LENGTH\<close> (2) and echoes the first byte of the datagram, or 0
  for an empty datagram.
\<close>

theorem bad_length_leaves_session:
  assumes "length pck \<noteq> 32"
  shows "\<exists>ev g. rx_step R C st pck = Inr (Continue, ev, st\<lparr>rx_rng := g\<rparr>) \<and>
           ack_bytes ev = [if length pck \<ge> 1 then pck ! 0 else 0, 2]"
proof -
  obtain ev g where send: "send_bad_length_ack R C (rx_rng st) (bad_length_ack pck) = (ev, g)"
    by (cases "send_bad_length_ack R C (rx_rng st) (bad_length_ack pck)")
  with assms have step: "rx_step R C st pck = Inr (Continue, ev, st\<lparr>rx_rng := g\<rparr>)"
    by (simp add: rx_step_def DATA_PCK_LEN_def)
  from send ack_bytes_send_bad_length_ack [of R C "rx_rng st" "bad_length_ack pck"]
  have "ack_bytes ev = bad_length_ack pck"
    by simp
  also have "\<dots> = [if length pck \<ge> 1 then pck ! 0 else 0, 2]"
    by (simp add: bad_length_ack_def byte_of_byte_at)
  finally show ?thesis
    using step by blast
qed

theorem bad_length_leaves_session_witness:
  "length [5, 1 :: byte] \<noteq> 32 \<and>
   (\<exists>ev g. rx_step counter_rng default_rx_config (rx_init counter_rng 0) [5, 1] =
              Inr (Continue, ev, (rx_init counter_rng 0)\<lparr>rx_rng := g\<rparr>) \<and>
            ack_bytes ev = [5, 2])"
proof -
  have h: "length [5, 1 :: byte] \<noteq> 32"
    by simp
  from bad_length_leaves_session [OF h, of counter_rng default_rx_config "rx_init counter_rng 0"]
  show ?thesis
    using h by simp
qed

text \<open>
  C4. When a packet has been accepted before, a datagram of 32 bytes whose sequence
  number is the last delivered one changes neither \<open>bytes_written\<close> nor the output (nor
  any other part of the session; only the random generator advances), and the Ack built
  for it carries status \<open>DUPLICATE\<close> (1) and the same sequence number.
\<close>

theorem duplicate_is_idempotent:
  assumes "last_delivered_pck_num st = Some s" and "length pck = 32" and "byte_at pck 0 = s"
  shows "\<exists>ctl ev g. rx_step R C st pck = Inr (ctl, ev, st\<lparr>rx_rng := g\<rparr>) \<and>
           ack_bytes ev = [pck ! 0, 1]"
proof -
  let ?ack = "[byte_of (byte_at pck 0), byte_of 1]"
  obtain ev g where send: "send_ack R C (rx_rng st) ?ack = (ev, g)"
    by (cases "send_ack R C (rx_rng st) ?ack")
  with assms have step: "rx_step R C st pck =
      Inr (if is_done st \<and> ack_decision ev \<noteq> Suppress then Break else Continue,
           ev, st\<lparr>rx_rng := g\<rparr>)"
    by (simp add: rx_step_def DATA_PCK_LEN_def)
  from send ack_bytes_send_ack [of R C "rx_rng st" ?ack] have "ack_bytes ev = ?ack"
    by simp
  with assms(2) have "ack_bytes ev = [pck ! 0, 1]"
    by (simp add: byte_of_byte_at)
  with step show ?thesis
    by blast
qed

theorem duplicate_is_idempotent_witness:
  "(\<exists>ctl ev g.
      rx_step counter_rng default_rx_config
        ((rx_init counter_rng 0)\<lparr>last_delivered_pck_num := Some 1\<rparr>) (1 # replicate 31 9) =
        Inr (ctl, ev, (rx_init counter_rng 0)\<lparr>last_delivered_pck_num := Some 1, rx_rng := g\<rparr>) \<and>
      ack_bytes ev = [1, 1])"
proof -
  let ?st = "(rx_init counter_rng 0)\<lparr>last_delivered_pck_num := Some 1\<rparr>"
  have h1: "last_delivered_pck_num ?st = Some 1"
    by simp
  have h2: "length (1 # replicate 31 (9::byte)) = 32"
    by simp
  have h3: "byte_at (1 # replicate 31 9) 0 = 1"
    by (simp add: byte_at_def)
  from duplicate_is_idempotent [OF h1 h2 h3, of counter_rng default_rx_config]
  show ?thesis
    by simp
qed

lemma send_ack_cases:
  assumes "send_ack R C g ack = (ev, g')"
  shows "ev = AckDropped ack \<or> (\<exists>d. ev = AckSent ack d)"
  using assms by (auto simp: send_ack_def Let_def split: prod.splits if_splits)

lemma file_write_Inr:
  "file_write st to_write = Inr st' \<Longrightarrow>
     st' = st\<lparr>out_f := out_f st @ to_write\<rparr> \<and> \<not> out_f_closed st"
  by (auto simp: file_write_def split: if_splits)

lemma nat_max_diff: "nat (max 0 (int a - int b)) = a - b"
  by (cases "b \<le> a") (simp_all add: max_def nat_diff_distrib')


lemma accept_new_props:
  assumes acc: "accept_new st pck_num data = Inr st'" and inv: "rx_inv st"
  shows "rx_inv st' \<and> last_delivered_pck_num st' = Some pck_num \<and>
         rx_rng st' = rx_rng st \<and> expected_total_len st' \<noteq> None \<and>
         (\<forall>etl. expected_total_len st = Some etl \<longrightarrow> expected_total_len st' = Some etl)"
proof (cases "expected_total_len st")
  case None
  with acc inv show ?thesis
    by (auto simp: accept_new_def Let_def rx_inv_def nat_max_diff min_def
        split: sum.splits if_splits dest!: file_write_Inr)
next
  case (Some etl)
  with acc inv show ?thesis
    by (auto simp: accept_new_def Let_def rx_inv_def nat_max_diff min_def
        split: sum.splits if_splits dest!: file_write_Inr)
qed

lemma rx_step_cases:
  assumes "rx_step R C st pck = Inr (ctl, ev, st')"
  shows "(length pck \<noteq> 32 \<and> ctl = Continue \<and> st' = st\<lparr>rx_rng := rx_rng st'\<rparr>) \<or>
         (length pck = 32 \<and> last_delivered_pck_num st = Some (byte_at pck 0) \<and>
            st' = st\<lparr>rx_rng := rx_rng st'\<rparr> \<and> ack_bytes ev = [pck ! 0, 1] \<and>
            (ctl = Break \<longleftrightarrow> is_done st' \<and> ack_decision ev \<noteq> Suppress) \<and>
            (ctl = Continue \<longleftrightarrow> \<not> (is_done st' \<and> ack_decision ev \<noteq> Suppress))) \<or>
         (length pck = 32 \<and> last_delivered_pck_num st \<noteq> Some (byte_at pck 0) \<and>
            (\<exists>st1. accept_new st (byte_at pck 0) (drop 1 pck) = Inr st1 \<and>
                   st' = st1\<lparr>rx_rng := rx_rng st'\<rparr>) \<and>
            ack_bytes ev = [pck ! 0, 0] \<and>
            (ctl = Break \<longleftrightarrow> is_done st' \<and> ack_decision ev \<noteq> Suppress) \<and>
            (ctl = Continue \<longleftrightarrow> \<not> (is_done st' \<and> ack_decision ev \<noteq> Suppress)))"
proof (cases "length pck = 32")
  case False
  with assms show ?thesis
    by (auto simp: rx_step_def DATA_PCK_LEN_def split: prod.splits)
next
  case len: True
  show ?thesis
  proof (cases "last_delivered_pck_num st = Some (byte_at pck 0)")
    case True
    with len assms show ?thesis
      by (auto simp: rx_step_def DATA_PCK_LEN_def Let_def byte_of_byte_at
          split: prod.splits if_splits dest: send_ack_cases)
  next
    case False
    with len assms show ?thesis
      by (auto simp: rx_step_def DATA_PCK_LEN_def Let_def byte_of_byte_at
          split: prod.splits sum.splits if_splits dest: send_ack_cases)
  qed
qed

lemma rx_inv_rng [simp]: "rx_inv (st\<lparr>rx_rng := g\<rparr>) = rx_inv st"
  by (simp add: rx_inv_def split: option.splits)

lemma rx_step_inv:
  assumes step: "rx_step R C st pck = Inr (ctl, ev, st')" and inv: "rx_inv st"
  shows "rx_inv st' \<and>
         (\<forall>etl. expected_total_len st = Some etl \<longrightarrow> expected_total_len st' = Some etl)"
  using rx_step_cases [OF step]
proof (elim disjE conjE exE)
  assume "st' = st\<lparr>rx_rng := rx_rng st'\<rparr>"
  then have "rx_inv st' = rx_inv st" "expected_total_len st' = expected_total_len st"
    by (metis rx_inv_rng, metis rx_state.select_convs(2) rx_state.surjective rx_state.update_convs(7))
  with inv show ?thesis by simp
next
  assume "st' = st\<lparr>rx_rng := rx_rng st'\<rparr>"
  then have "rx_inv st' = rx_inv st" "expected_total_len st' = expected_total_len st"
    by (metis rx_inv_rng, metis rx_state.select_convs(2) rx_state.surjective rx_state.update_convs(7))
  with inv show ?thesis by simp
next
  fix st1
  assume acc: "accept_new st (byte_at pck 0) (drop 1 pck) = Inr st1"
    and st': "st' = st1\<lparr>rx_rng := rx_rng st'\<rparr>"
  from st' have "rx_inv st' = rx_inv st1" "expected_total_len st' = expected_total_len st1"
    by (metis rx_inv_rng, metis rx_state.select_convs(2) rx_state.surjective rx_state.update_convs(7))
  with accept_new_props [OF acc inv] show ?thesis by simp
qed

lemma rx_inv_init: "rx_inv (rx_init R seed)"
  by (simp add: rx_inv_def rx_init_def)

lemma rx_reachable_inv: "rx_reachable R C seed st \<Longrightarrow> rx_inv st"
  by (induction rule: rx_reachable.induct) (auto simp: rx_inv_init dest: rx_step_inv)

lemmas rx_eval =
  rx_step_def rx_init_def accept_new_def file_write_def send_ack_def send_bad_length_ack_def
  bad_length_ack_def random_delay_def counter_rng_def default_rx_config_def byte_of_def
  byte_at_def bytes_slice_def DATA_PCK_LEN_def Let_def and_255_mod

lemma rx_first_packet_example:
  "rx_step counter_rng default_rx_config (rx_init counter_rng 0)
     (0 # [50, 0, 0, 0] @ replicate 27 7) =
   Inr (Continue, AckDropped [0, 0],
     \<lparr>last_delivered_pck_num = Some 0, expected_total_len = Some 50, bytes_written = 27,
      out_f = replicate 27 7, out_f_closed = False, is_done = False, rx_rng = 1\<rparr>)"
  by (simp add: rx_eval)

lemma rx_second_packet_example:
  "rx_step counter_rng default_rx_config
     \<lparr>last_delivered_pck_num = Some 0, expected_total_len = Some 50, bytes_written = 27,
      out_f = replicate 27 7, out_f_closed = False, is_done = False, rx_rng = 1\<rparr>
     (1 # replicate 31 8) =
   Inr (Break, AckSent [1, 0] 27,
     \<lparr>last_delivered_pck_num = Some 1, expected_total_len = Some 50, bytes_written = 50,
      out_f = replicate 27 7 @ replicate 23 8, out_f_closed = True, is_done = True,
      rx_rng = 3\<rparr>)"
  by (simp add: rx_eval)


text \<open>
  C6. In every state that the receive loop reaches, \<open>bytes_written\<close> does not exceed the
  expected total length once that length is known; and once it is known, no iteration
  changes it (and \<open>bytes_written\<close> stays within it also after the iteration that ends the
  loop).
\<close>

theorem rx_bytes_written_bounded:
  assumes "rx_reachable R C seed st"
  shows "(\<forall>etl. expected_total_len st = Some etl \<longrightarrow> bytes_written st \<le> etl) \<and>
         (\<forall>etl pck ctl ev st'.
            expected_total_len st = Some etl \<and> rx_step R C st pck = Inr (ctl, ev, st') \<longrightarrow>
            expected_total_len st' = Some etl \<and> bytes_written st' \<le> etl)"
proof -
  from assms have inv: "rx_inv st"
    by (rule rx_reachable_inv)
  have now: "bytes_written st \<le> etl" if "expected_total_len st = Some etl" for etl
    using inv that by (simp add: rx_inv_def)
  have later: "expected_total_len st' = Some etl \<and> bytes_written st' \<le> etl"
    if "expected_total_len st = Some etl" and "rx_step R C st pck = Inr (ctl, ev, st')"
    for etl pck ctl ev st'
  proof -
    from rx_step_inv [OF that(2) inv] that(1)
    have "rx_inv st'" and "expected_total_len st' = Some etl"
      by simp_all
    then show ?thesis
      by (simp add: rx_inv_def)
  qed
  from now later show ?thesis
    by blast
qed


theorem rx_bytes_written_bounded_witness:
  "rx_reachable counter_rng default_rx_config 0
     \<lparr>last_delivered_pck_num = Some 0, expected_total_len = Some 50, bytes_written = 27,
      out_f = replicate 27 7, out_f_closed = False, is_done = False, rx_rng = 1\<rparr> \<and>
   bytes_written
     \<lparr>last_delivered_pck_num = Some 0, expected_total_len = Some 50, bytes_written = 27,
      out_f = replicate 27 (7::byte), out_f_closed = False, is_done = False, rx_rng = 1::nat\<rparr>
     \<le> 50 \<and>
   expected_total_len
     \<lparr>last_delivered_pck_num = Some 1, expected_total_len = Some 50, bytes_written = 50,
      out_f = replicate 27 7 @ replicate 23 (8::byte), out_f_closed = True, is_done = True,
      rx_rng = 3::nat\<rparr> = Some 50"
proof -
  let ?st1 = "\<lparr>last_delivered_pck_num = Some 0, expected_total_len = Some 50,
      bytes_written = 27, out_f = replicate 27 (7::byte), out_f_closed = False,
      is_done = False, rx_rng = 1::nat\<rparr>"
  let ?st2 = "\<lparr>last_delivered_pck_num = Some 1, expected_total_len = Some 50, bytes_written = 50,
      out_f = replicate 27 7 @ replicate 23 (8::byte), out_f_closed = True, is_done = True,
      rx_rng = 3::nat\<rparr>"
  have reach: "rx_reachable counter_rng default_rx_config 0 ?st1"
    by (rule rx_reachable_step [OF rx_reachable_init rx_first_packet_example])
  have known: "expected_total_len ?st1 = Some 50"
    by simp
  from rx_bytes_written_bounded [OF reach] known rx_second_packet_example
  have "bytes_written ?st1 \<le> 50" and "expected_total_len ?st2 = Some 50"
    by blast+
  with reach show ?thesis
    by blast
qed


lemma ack_event_sent: "ack_decision ev \<noteq> Suppress \<Longrightarrow> \<exists>d. ev = AckSent (ack_bytes ev) d"
  by (cases ev) simp_all


text \<open>
  What holds of the exits by \<open>break\<close>: such an exit happens only with the data complete
  and the \<open>OK\<close> or \<open>DUPLICATE\<close> Ack of the last delivered packet sent in that iteration;
  and when the data is complete but the Ack was dropped, the iteration continues the
  loop, and the same datagram again is answered as a duplicate.
\<close>

lemma rx_step_break_or_retry:
  assumes reach: "rx_reachable R C seed st"
    and step: "rx_step R C st pck = Inr (ctl, ev, st')"
  shows "(ctl = Break \<longrightarrow>
            (\<exists>etl status d. expected_total_len st' = Some etl \<and> etl \<le> bytes_written st' \<and>
               length pck = 32 \<and> last_delivered_pck_num st' = Some (byte_at pck 0) \<and>
               ev = AckSent [pck ! 0, status] d \<and> (status = 0 \<or> status = 1))) \<and>
         (length pck = 32 \<and> is_done st' \<and> ack_decision ev = Suppress \<longrightarrow>
            ctl = Continue \<and>
            (\<exists>ctl2 ev2 g2. rx_step R C st' pck = Inr (ctl2, ev2, st'\<lparr>rx_rng := g2\<rparr>) \<and>
               ack_bytes ev2 = [pck ! 0, 1] \<and>
               (ctl2 = Break \<longleftrightarrow> ack_decision ev2 \<noteq> Suppress)))"
proof -
  from reach have inv: "rx_inv st"
    by (rule rx_reachable_inv)
  from rx_step_inv [OF step inv] have inv': "rx_inv st'"
    by simp
  have done_complete: "\<exists>etl. expected_total_len st' = Some etl \<and> etl \<le> bytes_written st'"
    if "is_done st'"
    using inv' that by (cases "expected_total_len st'") (simp_all add: rx_inv_def)
  have last: "last_delivered_pck_num st' = Some (byte_at pck 0)" if "length pck = 32"
    using rx_step_cases [OF step] that
  proof (elim disjE conjE exE)
    fix st1
    assume "accept_new st (byte_at pck 0) (drop 1 pck) = Inr st1"
      and "st' = st1\<lparr>rx_rng := rx_rng st'\<rparr>"
    with accept_new_props [OF _ inv] show ?thesis
      by (metis rx_state.select_convs(1) rx_state.surjective rx_state.update_convs(7))
  next
    assume "last_delivered_pck_num st = Some (byte_at pck 0)"
      and "st' = st\<lparr>rx_rng := rx_rng st'\<rparr>"
    then show ?thesis
      by (metis rx_state.select_convs(1) rx_state.surjective rx_state.update_convs(7))
  qed simp
  have brk: "\<exists>etl status d. expected_total_len st' = Some etl \<and> etl \<le> bytes_written st' \<and>
               length pck = 32 \<and> last_delivered_pck_num st' = Some (byte_at pck 0) \<and>
               ev = AckSent [pck ! 0, status] d \<and> (status = 0 \<or> status = 1)"
    if "ctl = Break"
  proof -
    from rx_step_cases [OF step] that
    have len: "length pck = 32" and d: "is_done st'" and s: "ack_decision ev \<noteq> Suppress"
      and a: "ack_bytes ev = [pck ! 0, 1] \<or> ack_bytes ev = [pck ! 0, 0]"
      by auto
    from ack_event_sent [OF s] obtain d' where "ev = AckSent (ack_bytes ev) d'" ..
    with a have "\<exists>status. ev = AckSent [pck ! 0, status] d' \<and> (status = 0 \<or> status = 1)"
      by auto
    with done_complete [OF d] len last [OF len] show ?thesis
      by blast
  qed
  have retry: "ctl = Continue \<and>
            (\<exists>ctl2 ev2 g2. rx_step R C st' pck = Inr (ctl2, ev2, st'\<lparr>rx_rng := g2\<rparr>) \<and>
               ack_bytes ev2 = [pck ! 0, 1] \<and>
               (ctl2 = Break \<longleftrightarrow> ack_decision ev2 \<noteq> Suppress))"
    if len: "length pck = 32" and d: "is_done st'" and s: "ack_decision ev = Suppress"
  proof -
    from rx_step_cases [OF step] len s have c: "ctl = Continue"
      by auto
    let ?ack = "[byte_of (byte_at pck 0), byte_of 1]"
    obtain ev2 g2 where send: "send_ack R C (rx_rng st') ?ack = (ev2, g2)"
      by (cases "send_ack R C (rx_rng st') ?ack")
    with len last [OF len] d have "rx_step R C st' pck =
        Inr (if ack_decision ev2 \<noteq> Suppress then Break else Continue, ev2, st'\<lparr>rx_rng := g2\<rparr>)"
      by (simp add: rx_step_def DATA_PCK_LEN_def)
    moreover from send ack_bytes_send_ack [of R C "rx_rng st'" ?ack]
    have "ack_bytes ev2 = [pck ! 0, 1]"
      by (simp add: byte_of_byte_at)
    ultimately show ?thesis
      using c by auto
  qed
  from brk retry show ?thesis
    by blast
qed

lemma rx_loop_finished:
  assumes "rx_loop R C st datagrams = (evs, RxFinished fin)" and "rx_reachable R C seed st"
  shows "\<exists>st0 pck ev. rx_reachable R C seed st0 \<and> rx_step R C st0 pck = Inr (Break, ev, fin) \<and>
           evs \<noteq> [] \<and> last evs = ev"
  using assms
proof (induction datagrams arbitrary: st evs)
  case Nil
  then show ?case by simp
next
  case (Cons pck rest)
  show ?case
  proof (cases "rx_step R C st pck")
    case (Inl e)
    with Cons.prems(1) show ?thesis
      by simp
  next
    case (Inr r)
    obtain ctl ev st' where r: "r = (ctl, ev, st')"
      by (cases r)
    show ?thesis
    proof (cases ctl)
      case Break
      with Cons.prems(1) Inr r have "evs = [ev]" "st' = fin"
        by simp_all
      with Cons.prems(2) Inr r Break show ?thesis
        by (intro exI [of _ st] exI [of _ pck] exI [of _ ev]) simp
    next
      case Continue
      obtain evs' outcome' where rec: "rx_loop R C st' rest = (evs', outcome')"
        by (cases "rx_loop R C st' rest")
      with Cons.prems(1) Inr r Continue have evs: "evs = ev # evs'" "outcome' = RxFinished fin"
        by simp_all
      from Cons.prems(2) Inr r Continue have "rx_reachable R C seed st'"
        by (auto intro: rx_reachable_step)
      from Cons.IH [OF rec [unfolded evs(2)] this] evs(1) show ?thesis
        by auto
    qed
  qed
qed

text \<open>
  After completion the output file is closed. A datagram of 32 bytes with another
  sequence number than the last delivered one is then treated as new data, and the write
  to the closed file raises \<open>ValueError\<close>: the program ends by the exception, in every
  reachable state with the data complete.
\<close>

lemma rx_new_packet_after_completion_raises:
  assumes "rx_reachable R C seed st" and "is_done st" and "length pck = 32"
    and "last_delivered_pck_num st \<noteq> Some (byte_at pck 0)"
  shows "rx_step R C st pck = Inl ValueError"
proof -
  from assms(1) have "rx_inv st"
    by (rule rx_reachable_inv)
  with assms(2) obtain etl where "expected_total_len st = Some etl" "out_f_closed st"
    by (cases "expected_total_len st") (simp_all add: rx_inv_def)
  with assms(3,4) show ?thesis
    by (simp add: rx_step_def DATA_PCK_LEN_def accept_new_def file_write_def)
qed

text \<open>
  C8. The code does not keep the claim: the loop can end, with the data complete, in a
  state in which no Ack for the completing packet was ever sent. The file is closed as
  soon as the data is complete, before the Ack is known to be sent. With every Ack
  dropped (loss probability 1), the first packet of an empty stream completes the data;
  its Ack is dropped and the loop goes on. A second datagram of 32 bytes with sequence
  number 1 is then not a duplicate: it is handled as new data, \<open>out_f.write\<close> on the
  closed file raises \<open>ValueError\<close>, and the program ends. The only Ack of the run was
  dropped, and the datagram was not answered at all.
\<close>

theorem rx_raises_after_dropped_final_ack:
  "rx_main counter_rng (default_rx_config\<lparr>LOSS_ACK_PROB := 1\<rparr>) 12
     [0 # [0, 0, 0, 0] @ replicate 27 0, 1 # replicate 31 0] =
   ([AckDropped [0, 0]], RxRaised ValueError)"
  by (simp add: rx_main_def rx_eval)

section \<open>Properties of the sender\<close>

lemma wait_for_ack_consumes:
  "wait_for_ack timeout n now acks = Inr (status, now', acks') \<Longrightarrow>
     \<exists>consumed. acks = consumed @ acks'"
proof (induction acks arbitrary: now)
  case Nil
  then show ?case
    by (simp split: if_splits)
next
  case (Cons a acks)
  obtain t d where a: "a = (t, d)"
    by (cases a)
  from Cons.prems a
  consider (kept) "acks' = a # acks" | (took) "acks' = acks"
    | (later) "wait_for_ack timeout n (max now t) acks = Inr (status, now', acks')"
    by (auto simp: Let_def split: if_splits)
  then show ?case
  proof cases
    case kept
    then show ?thesis
      by simp
  next
    case took
    then show ?thesis
      by (intro exI [of _ "[a]"]) simp
  next
    case later
    from Cons.IH [OF later] obtain consumed where "acks = consumed @ acks'" ..
    then show ?thesis
      by (intro exI [of _ "a # consumed"]) simp
  qed
qed

lemma wait_for_ack_remaining:
  "wait_for_ack timeout n now acks = Inr (status, now', acks') \<Longrightarrow> set acks' \<subseteq> set acks"
  by (auto dest: wait_for_ack_consumes)

lemma wait_for_ack_Some:
  "wait_for_ack timeout n now acks = Inr (Some status, now', acks') \<Longrightarrow>
     \<exists>t ack. (t, ack) \<in> set acks \<and> length ack = 2 \<and> byte_at ack 0 = n AND 0xFF \<and>
       byte_at ack 1 = status"
proof (induction acks arbitrary: now)
  case Nil
  then show ?case
    by (simp split: if_splits)
next
  case (Cons a acks)
  obtain t ack where a: "a = (t, ack)"
    by (cases a)
  from Cons.prems a
  consider (hit) "length ack = 2" "byte_at ack 0 = n AND 0xFF" "byte_at ack 1 = status"
    | (later) "wait_for_ack timeout n (max now t) acks = Inr (Some status, now', acks')"
    by (auto simp: Let_def ACK_LEN_def split: if_splits)
  then show ?case
  proof cases
    case hit
    with a show ?thesis
      by auto
  next
    case later
    from Cons.IH [OF later] show ?thesis
      by auto
  qed
qed

lemma wait_for_ack_blocking:
  "0 < timeout \<Longrightarrow> \<exists>r. wait_for_ack timeout n now acks = Inr r"
proof (induction acks arbitrary: now)
  case Nil
  then show ?case
    by simp
next
  case (Cons a acks)
  obtain t ack where a: "a = (t, ack)"
    by (cases a)
  from Cons.IH [OF Cons.prems, of "max now t"] Cons.prems a show ?case
    by (auto simp: Let_def)
qed

lemma wait_for_ack_discards:
  assumes "\<forall>(t, ack) \<in> set discarded. length ack \<noteq> 2 \<or> byte_at ack 0 \<noteq> n AND 0xFF"
    and "arrive_in_time timeout now discarded"
  shows "wait_for_ack timeout n now (discarded @ rest) =
           wait_for_ack timeout n (last_reception now discarded) rest"
  using assms
proof (induction discarded arbitrary: now)
  case Nil
  then show ?case
    by simp
next
  case (Cons a discarded)
  obtain t ack where a: "a = (t, ack)"
    by (cases a)
  with Cons.prems have "t \<le> now + timeout" "arrive_in_time timeout (max now t) discarded"
    and stale: "length ack \<noteq> 2 \<or> byte_at ack 0 \<noteq> n AND 0xFF"
    and rest: "\<forall>(t, ack) \<in> set discarded. length ack \<noteq> 2 \<or> byte_at ack 0 \<noteq> n AND 0xFF"
    by auto
  with Cons.IH [OF rest this(2)] a show ?case
    by (auto simp: Let_def ACK_LEN_def)
qed

lemma wait_for_ack_timeout_exact:
  assumes "0 < timeout"
    and "wait_for_ack timeout n now acks = Inr (None, now', acks')"
  shows "\<exists>ds. acks = ds @ acks' \<and>
           (\<forall>(t, ack) \<in> set ds. length ack \<noteq> 2 \<or> byte_at ack 0 \<noteq> n AND 0xFF) \<and>
           arrive_in_time timeout now ds \<and> now' = last_reception now ds + timeout \<and>
           (acks' = [] \<or> now' < fst (hd acks'))"
  using assms(2)
proof (induction acks arbitrary: now)
  case Nil
  with assms(1) show ?case
    by (intro exI [of _ "[]"]) simp
next
  case (Cons a acks)
  obtain t ack where a: "a = (t, ack)"
    by (cases a)
  show ?case
  proof (cases "t \<le> now + timeout")
    case False
    with Cons.prems a assms(1) have "acks' = a # acks" "now' = now + timeout"
      by auto
    with False a show ?thesis
      by (intro exI [of _ "[]"]) simp
  next
    case True
    with Cons.prems a
    have stale: "length ack \<noteq> 2 \<or> byte_at ack 0 \<noteq> n AND 0xFF"
      and later: "wait_for_ack timeout n (max now t) acks = Inr (None, now', acks')"
      by (auto simp: Let_def ACK_LEN_def split: if_splits)
    from Cons.IH [OF later] obtain ds where
      ds: "acks = ds @ acks'"
        "\<forall>(t, ack) \<in> set ds. length ack \<noteq> 2 \<or> byte_at ack 0 \<noteq> n AND 0xFF"
        "arrive_in_time timeout (max now t) ds"
        "now' = last_reception (max now t) ds + timeout"
        "acks' = [] \<or> now' < fst (hd acks')"
      by blast
    with True stale a show ?thesis
      by (intro exI [of _ "a # ds"]) simp
  qed
qed

lemma wait_for_ack_timeout_after:
  assumes "0 < timeout"
    and "\<forall>(t, ack) \<in> set ds. length ack \<noteq> 2 \<or> byte_at ack 0 \<noteq> n AND 0xFF"
    and "arrive_in_time timeout now ds"
    and "acks' = [] \<or> last_reception now ds + timeout < fst (hd acks')"
  shows "wait_for_ack timeout n now (ds @ acks') =
           Inr (None, last_reception now ds + timeout, acks')"
proof -
  have "wait_for_ack timeout n (last_reception now ds) acks' =
      Inr (None, last_reception now ds + timeout, acks')"
  proof (cases acks')
    case Nil
    with assms(1) show ?thesis
      by simp
  next
    case (Cons a rest)
    obtain t ack where "a = (t, ack)"
      by (cases a)
    with Cons assms(1,4) show ?thesis
      by simp
  qed
  with wait_for_ack_discards [OF assms(2,3)] show ?thesis
    by simp
qed

text \<open>
  C3, as the code has it, for a positive timeout. A datagram that \<open>wait_for_ack\<close> discards
  (an Ack whose echoed sequence number differs from the one just sent, or a datagram that
  is not two bytes long) is discarded inside the same call, so it consumes no attempt; but
  the timeout bounds each single \<open>recvfrom\<close>, so the wait goes on from the reception of the
  discarded datagram with a full timeout: a wait that discards a list of datagrams that
  arrive in time is the wait that starts at the reception of the last of them. A wait
  fails exactly when, after such a list, one full timeout passes with no further
  datagram; it then fails one timeout after the last reception (the start of the wait
  when nothing was discarded), not one timeout after its start.
\<close>

theorem stale_ack_restarts_timeout:
  "0 < timeout \<longrightarrow>
     ((\<forall>(t, ack) \<in> set discarded. length ack \<noteq> 2 \<or> byte_at ack 0 \<noteq> expected_pck_num AND 0xFF) \<and>
      arrive_in_time timeout now discarded \<longrightarrow>
        wait_for_ack timeout expected_pck_num now (discarded @ rest) =
          wait_for_ack timeout expected_pck_num (last_reception now discarded) rest) \<and>
     (wait_for_ack timeout expected_pck_num now acks = Inr (None, now', acks') \<longleftrightarrow>
        (\<exists>ds. acks = ds @ acks' \<and>
           (\<forall>(t, ack) \<in> set ds. length ack \<noteq> 2 \<or> byte_at ack 0 \<noteq> expected_pck_num AND 0xFF) \<and>
           arrive_in_time timeout now ds \<and> now' = last_reception now ds + timeout \<and>
           (acks' = [] \<or> now' < fst (hd acks'))))"
proof (intro impI conjI iffI)
  assume "(\<forall>(t, ack) \<in> set discarded.
             length ack \<noteq> 2 \<or> byte_at ack 0 \<noteq> expected_pck_num AND 0xFF) \<and>
      arrive_in_time timeout now discarded"
  then show "wait_for_ack timeout expected_pck_num now (discarded @ rest) =
      wait_for_ack timeout expected_pck_num (last_reception now discarded) rest"
    by (intro wait_for_ack_discards) simp_all
next
  assume "0 < timeout"
    and "wait_for_ack timeout expected_pck_num now acks = Inr (None, now', acks')"
  then show "\<exists>ds. acks = ds @ acks' \<and>
           (\<forall>(t, ack) \<in> set ds. length ack \<noteq> 2 \<or> byte_at ack 0 \<noteq> expected_pck_num AND 0xFF) \<and>
           arrive_in_time timeout now ds \<and> now' = last_reception now ds + timeout \<and>
           (acks' = [] \<or> now' < fst (hd acks'))"
    by (rule wait_for_ack_timeout_exact)
next
  assume pos: "0 < timeout"
    and "\<exists>ds. acks = ds @ acks' \<and>
           (\<forall>(t, ack) \<in> set ds. length ack \<noteq> 2 \<or> byte_at ack 0 \<noteq> expected_pck_num AND 0xFF) \<and>
           arrive_in_time timeout now ds \<and> now' = last_reception now ds + timeout \<and>
           (acks' = [] \<or> now' < fst (hd acks'))"
  then obtain ds where ds: "acks = ds @ acks'"
    "\<forall>(t, ack) \<in> set ds. length ack \<noteq> 2 \<or> byte_at ack 0 \<noteq> expected_pck_num AND 0xFF"
    "arrive_in_time timeout now ds" "now' = last_reception now ds + timeout"
    "acks' = [] \<or> now' < fst (hd acks')"
    by blast
  from wait_for_ack_timeout_after [OF pos ds(2,3) ds(5) [unfolded ds(4)]] ds(1,4)
  show "wait_for_ack timeout expected_pck_num now acks = Inr (None, now', acks')"
    by simp
qed

theorem stale_ack_restarts_timeout_witness:
  "wait_for_ack 1000 0 0 [(900, [1, 0]), (1950, [0, 2])] =
     Inr (None, 1900, [(1950, [0, 2])]) \<and>
   wait_for_ack 1000 0 0 ([(900, [1, 0])] @ [(1800, [0, 0])]) =
     wait_for_ack 1000 0 900 [(1800, [0, 0])]"
proof -
  have pos: "(0::nat) < 1000"
    by simp
  have stale: "(\<forall>(t, ack) \<in> set [(900::nat, [1, 0 :: byte])].
       length ack \<noteq> 2 \<or> byte_at ack 0 \<noteq> 0 AND 0xFF) \<and>
     arrive_in_time 1000 0 [(900, [1, 0])]"
    by (simp add: byte_at_def)
  have fails: "\<exists>ds. [(900, [1, 0]), (1950, [0, 2])] = ds @ [(1950, [0, 2])] \<and>
      (\<forall>(t, ack) \<in> set ds. length ack \<noteq> 2 \<or> byte_at ack 0 \<noteq> 0 AND 0xFF) \<and>
      arrive_in_time 1000 0 ds \<and> (1900::nat) = last_reception 0 ds + 1000 \<and>
      ([(1950::nat, [0, 2 :: byte])] = [] \<or> 1900 < fst (hd [(1950::nat, [0, 2 :: byte])]))"
    by (intro exI [of _ "[(900, [1, 0])]"]) (simp add: byte_at_def)
  from stale_ack_restarts_timeout [where timeout = 1000 and expected_pck_num = 0 and now = 0
      and discarded = "[(900, [1, 0])]" and rest = "[(1800, [0, 0])]"
      and acks = "[(900, [1, 0]), (1950, [0, 2])]" and now' = 1900
      and acks' = "[(1950, [0, 2])]"] pos stale fails
  show ?thesis
    by simp
qed

text \<open>
  The claim as it is written fails on the code. With a timeout of 1000 ms, a stale Ack
  (sequence number 1) that arrives at 900 ms restarts the timeout, and the matching Ack
  that arrives at 1800 ms, after the deadline of the attempt, is accepted; a wait with a
  single deadline would have failed at 1000 ms.
\<close>

theorem stale_ack_single_timeout_counterexample:
  "wait_for_ack 1000 0 0 [(900, [1, 0]), (1800, [0, 0])] = Inr (Some 0, 1800, []) \<and>
   spec_wait_one_deadline (0 + 1000) 0 0 [(900, [1, 0]), (1800, [0, 0])] =
     (None, 1000, [(1800, [0, 0])])"
  by (simp add: ACK_LEN_def byte_at_def)

lemma transmit_log:
  "\<exists>e. tx_log (transmit R C n pck a st) = tx_log st @ [e] \<and> is_attempt e \<and>
     \<not> is_confirmed e \<and> \<not> is_failed e \<and> event_pck_num e = n \<and>
     (e = DataDropped n a \<or> (\<exists>d. e = DataSent n a pck d)) \<and>
     (fst (random_random R (tx_rng st)) < LOSS_DATA_PROB C \<longrightarrow> e = DataDropped n a) \<and>
     spec_loss_delay_policy R (LOSS_DATA_PROB C) (DATA_DELAY_MS_MIN C) (DATA_DELAY_MS_MAX C) (tx_rng st)
       = (tx_decision e, tx_rng (transmit R C n pck a st))"
  by (auto simp: transmit_def spec_loss_delay_policy_def random_delay_def Let_def split: prod.splits)

lemma transmit_inbox [simp]: "tx_inbox (transmit R C n pck a st) = tx_inbox st"
  by (simp add: transmit_def Let_def split: prod.splits)

lemma send_attempts_step:
  assumes run: "send_attempts R C n pck (a # as) st = Inr (b, st')"
  obtains (confirmed) status now' inbox' where
      "wait_for_ack (nat (RTT_TIMEOUT_MS C)) n (tx_now (transmit R C n pck a st))
         (tx_inbox st) = Inr (Some status, now', inbox')"
      "status = 0 \<or> status = 1" "b"
      "st' = (transmit R C n pck a st)\<lparr>tx_now := now', tx_inbox := inbox',
         tx_log := tx_log (transmit R C n pck a st) @ [Confirmed n status]\<rparr>"
  | (again) e status now' inbox' where
      "wait_for_ack (nat (RTT_TIMEOUT_MS C)) n (tx_now (transmit R C n pck a st))
         (tx_inbox st) = Inr (status, now', inbox')"
      "e = AckTimeout n a \<or> (\<exists>s. e = StatusRetry n s)"
      "send_attempts R C n pck as
         ((transmit R C n pck a st)\<lparr>tx_now := now', tx_inbox := inbox',
            tx_log := tx_log (transmit R C n pck a st) @ [e]\<rparr>) = Inr (b, st')"
proof -
  let ?st1 = "transmit R C n pck a st"
  from run obtain status now' inbox' where
    w: "wait_for_ack (nat (RTT_TIMEOUT_MS C)) n (tx_now ?st1) (tx_inbox st) =
          Inr (status, now', inbox')"
    by (cases "wait_for_ack (nat (RTT_TIMEOUT_MS C)) n (tx_now ?st1) (tx_inbox st)")
      (auto simp: Let_def)
  show thesis
  proof (cases status)
    case None
    with run w have "send_attempts R C n pck as
         (?st1\<lparr>tx_now := now', tx_inbox := inbox',
            tx_log := tx_log ?st1 @ [AckTimeout n a]\<rparr>) = Inr (b, st')"
      by (simp add: Let_def)
    with w show ?thesis
      by (intro again [of status now' inbox' "AckTimeout n a"]) simp_all
  next
    case (Some s)
    show ?thesis
    proof (cases "s = 0 \<or> s = 1")
      case True
      with run w Some have "b" and "st' = ?st1\<lparr>tx_now := now', tx_inbox := inbox',
         tx_log := tx_log ?st1 @ [Confirmed n s]\<rparr>"
        by (auto simp: Let_def)
      with w Some True show ?thesis
        by (intro confirmed [of s now' inbox']) simp_all
    next
      case False
      with run w Some have "send_attempts R C n pck as
         (?st1\<lparr>tx_now := now', tx_inbox := inbox',
            tx_log := tx_log ?st1 @ [StatusRetry n s]\<rparr>) = Inr (b, st')"
        by (simp add: Let_def)
      with w show ?thesis
        by (intro again [of status now' inbox' "StatusRetry n s"]) simp_all
    qed
  qed
qed

lemma send_attempts_log:
  "send_attempts R C n pck attempts st = Inr (b, st') \<Longrightarrow>
   \<exists>body final. tx_log st' = tx_log st @ body @ [final] \<and>
      (\<forall>e \<in> set body. \<not> is_confirmed e \<and> \<not> is_failed e \<and> event_pck_num e = n \<and>
         (\<forall>m a p d. e = DataSent m a p d \<longrightarrow> p = pck)) \<and>
      (if b then \<exists>status. final = Confirmed n status \<and> (status = 0 \<or> status = 1) \<and>
                   (\<exists>t ack. (t, ack) \<in> set (tx_inbox st) \<and> length ack = 2 \<and>
                      byte_at ack 0 = n AND 0xFF \<and> byte_at ack 1 = status)
       else final = ChunkFailed n) \<and>
      set (tx_inbox st') \<subseteq> set (tx_inbox st)"
proof (induction attempts arbitrary: st)
  case Nil
  then have "tx_log st' = tx_log st @ [] @ [ChunkFailed n]" "\<not> b" "tx_inbox st' = tx_inbox st"
    by auto
  then show ?case
    by (intro exI [of _ "[]"] exI [of _ "ChunkFailed n"]) simp
next
  case (Cons a as)
  let ?st1 = "transmit R C n pck a st"
  obtain e1 where e1: "tx_log ?st1 = tx_log st @ [e1]" "\<not> is_confirmed e1" "\<not> is_failed e1"
    "event_pck_num e1 = n" "e1 = DataDropped n a \<or> (\<exists>d. e1 = DataSent n a pck d)"
    using transmit_log [of R C n pck a st] by blast
  from Cons.prems show ?case
  proof (cases rule: send_attempts_step)
    case (confirmed status now' inbox')
    from wait_for_ack_Some [OF confirmed(1)] wait_for_ack_remaining [OF confirmed(1)]
      confirmed(2-4) e1
    show ?thesis
      by (intro exI [of _ "[e1]"] exI [of _ "Confirmed n status"]) auto
  next
    case (again e status now' inbox')
    let ?st2 = "?st1\<lparr>tx_now := now', tx_inbox := inbox', tx_log := tx_log ?st1 @ [e]\<rparr>"
    from Cons.IH [OF again(3)] obtain body final where
      rec: "tx_log st' = tx_log ?st2 @ body @ [final]"
        "\<forall>e \<in> set body. \<not> is_confirmed e \<and> \<not> is_failed e \<and> event_pck_num e = n \<and>
           (\<forall>m a p d. e = DataSent m a p d \<longrightarrow> p = pck)"
        "if b then \<exists>status. final = Confirmed n status \<and> (status = 0 \<or> status = 1) \<and>
                   (\<exists>t ack. (t, ack) \<in> set (tx_inbox ?st2) \<and> length ack = 2 \<and>
                      byte_at ack 0 = n AND 0xFF \<and> byte_at ack 1 = status)
         else final = ChunkFailed n"
        "set (tx_inbox st') \<subseteq> set (tx_inbox ?st2)"
      by blast
    from wait_for_ack_remaining [OF again(1)] have sub: "set inbox' \<subseteq> set (tx_inbox st)" .
    have log: "tx_log st' = tx_log st @ (e1 # e # body) @ [final]"
      using rec(1) e1(1) by simp
    have body: "\<forall>x \<in> set (e1 # e # body). \<not> is_confirmed x \<and> \<not> is_failed x \<and>
        event_pck_num x = n \<and> (\<forall>m a p d. x = DataSent m a p d \<longrightarrow> p = pck)"
      using rec(2) e1(2-5) again(2) by auto
    have fin: "if b then \<exists>status. final = Confirmed n status \<and> (status = 0 \<or> status = 1) \<and>
                   (\<exists>t ack. (t, ack) \<in> set (tx_inbox st) \<and> length ack = 2 \<and>
                      byte_at ack 0 = n AND 0xFF \<and> byte_at ack 1 = status)
         else final = ChunkFailed n"
      using rec(3) sub by (cases b) auto
    have inbox: "set (tx_inbox st') \<subseteq> set (tx_inbox st)"
      using rec(4) sub by auto
    from log body fin inbox show ?thesis
      by blast
  qed
qed

lemma send_attempts_forced_loss:
  assumes loss: "\<And>g. fst (random_random R g) < LOSS_DATA_PROB C"
    and pos: "0 < RTT_TIMEOUT_MS C"
    and quiet: "\<forall>(t, ack) \<in> set (tx_inbox st).
                  \<not> (length ack = 2 \<and> (byte_at ack 1 = 0 \<or> byte_at ack 1 = 1))"
  shows "\<exists>st'. send_attempts R C n pck attempts st = Inr (False, st') \<and>
           filter is_attempt (tx_log st') =
             filter is_attempt (tx_log st) @ map (DataDropped n) attempts"
  using quiet
proof (induction attempts arbitrary: st)
  case Nil
  then show ?case by simp
next
  case (Cons a as)
  let ?st1 = "transmit R C n pck a st"
  from transmit_log [of R C n pck a st] loss [of "tx_rng st"]
  have log1: "tx_log ?st1 = tx_log st @ [DataDropped n a]"
    by auto
  from pos have "0 < nat (RTT_TIMEOUT_MS C)"
    by simp
  from wait_for_ack_blocking [OF this] obtain status now' inbox' where
    w: "wait_for_ack (nat (RTT_TIMEOUT_MS C)) n (tx_now ?st1) (tx_inbox st) =
          Inr (status, now', inbox')"
    by (metis prod_cases3)
  from wait_for_ack_remaining [OF w] Cons.prems
  have q: "\<forall>(t, ack) \<in> set inbox'.
            \<not> (length ack = 2 \<and> (byte_at ack 1 = 0 \<or> byte_at ack 1 = 1))"
    by auto
  have unconfirmed: "status \<noteq> Some 0" "status \<noteq> Some 1"
    using wait_for_ack_Some [of "nat (RTT_TIMEOUT_MS C)" n "tx_now ?st1" "tx_inbox st" _ now' inbox']
      w Cons.prems by fastforce+
  define e where "e = (case status of None \<Rightarrow> AckTimeout n a | Some s \<Rightarrow> StatusRetry n s)"
  let ?st3 = "?st1\<lparr>tx_now := now', tx_inbox := inbox', tx_log := tx_log ?st1 @ [e]\<rparr>"
  have step: "send_attempts R C n pck (a # as) st = send_attempts R C n pck as ?st3"
    using w unconfirmed by (cases status) (simp_all add: e_def Let_def)
  have "\<not> is_attempt e"
    by (cases status) (simp_all add: e_def)
  with Cons.IH [of ?st3] q log1 step show ?case
    by auto
qed

lemma policy_run_append:
  "spec_policy_run R p lo hi g (j + k) =
     (let (ds1, g1) = spec_policy_run R p lo hi g j;
          (ds2, g2) = spec_policy_run R p lo hi g1 k
      in (ds1 @ ds2, g2))"
  by (induction j arbitrary: g) (simp_all add: Let_def split: prod.splits)

lemma send_attempts_policy:
  "send_attempts R C n pck attempts st = Inr (b, st') \<Longrightarrow>
   \<exists>new. tx_log st' = tx_log st @ new \<and>
     spec_policy_run R (LOSS_DATA_PROB C) (DATA_DELAY_MS_MIN C) (DATA_DELAY_MS_MAX C) (tx_rng st)
       (length (filter is_attempt new)) = (map tx_decision (filter is_attempt new), tx_rng st')"
proof (induction attempts arbitrary: st)
  case Nil
  then have "tx_log st' = tx_log st @ [ChunkFailed n]" "tx_rng st' = tx_rng st"
    by auto
  then show ?case
    by (intro exI [of _ "[ChunkFailed n]"]) simp
next
  case (Cons a as)
  let ?st1 = "transmit R C n pck a st"
  let ?run = "spec_policy_run R (LOSS_DATA_PROB C) (DATA_DELAY_MS_MIN C) (DATA_DELAY_MS_MAX C)"
  obtain e1 where e1: "tx_log ?st1 = tx_log st @ [e1]" "is_attempt e1"
    "spec_loss_delay_policy R (LOSS_DATA_PROB C) (DATA_DELAY_MS_MIN C) (DATA_DELAY_MS_MAX C)
       (tx_rng st) = (tx_decision e1, tx_rng ?st1)"
    using transmit_log [of R C n pck a st] by blast
  from Cons.prems show ?case
  proof (cases rule: send_attempts_step)
    case (confirmed status now' inbox')
    with e1 have "tx_log st' = tx_log st @ [e1, Confirmed n status]"
      and "?run (tx_rng st) (length (filter is_attempt [e1, Confirmed n status])) =
        (map tx_decision (filter is_attempt [e1, Confirmed n status]), tx_rng st')"
      by simp_all
    then show ?thesis
      by blast
  next
    case (again e status now' inbox')
    let ?st2 = "?st1\<lparr>tx_now := now', tx_inbox := inbox', tx_log := tx_log ?st1 @ [e]\<rparr>"
    from Cons.IH [OF again(3)] obtain new where
      new: "tx_log st' = tx_log ?st2 @ new"
        "?run (tx_rng ?st1) (length (filter is_attempt new)) =
           (map tx_decision (filter is_attempt new), tx_rng st')"
      by auto
    from again(2) have ne: "\<not> is_attempt e"
      by auto
    from new e1 ne have "tx_log st' = tx_log st @ (e1 # e # new)"
      and "?run (tx_rng st) (length (filter is_attempt (e1 # e # new))) =
        (map tx_decision (filter is_attempt (e1 # e # new)), tx_rng st')"
      by simp_all
    then show ?thesis
      by blast
  qed
qed

lemma alternating_from_body:
  assumes "\<forall>e \<in> set body. \<not> is_confirmed e \<and> event_pck_num e = n"
    and "map event_pck_num rest = spec_alternating_from n rest"
  shows "map event_pck_num (body @ rest) = spec_alternating_from n (body @ rest)"
  using assms by (induction body) simp_all

lemma flip_bit: "n = 0 \<or> n = 1 \<Longrightarrow> n XOR 1 = 1 - (n::int)"
  by auto

lemma make_packet_Inr:
  "make_packet n c = Inr pck \<Longrightarrow> pck ! 0 = byte_of n \<and> length pck = 32"
  by (auto simp: make_packet_def DATA_BYTES_def split: if_splits)

lemma tx_loop_log:
  assumes "tx_loop R C n sent succeeded chunks st = Inr res" and "n = 0 \<or> n = 1"
  shows "\<exists>new. tx_log (tx_final res) = tx_log st @ new \<and>
     map event_pck_num new = spec_alternating_from n new \<and>
     filter is_failed (butlast new) = [] \<and>
     success_data_chunks res = succeeded + length (filter is_confirmed new) \<and>
     sent_data_chunks res =
       sent + length (filter is_confirmed new) + length (filter is_failed new) \<and>
     pck_num_final res = (n + int (length (filter is_confirmed new))) mod 2 \<and>
     (\<forall>m a p d. DataSent m a p d \<in> set new \<longrightarrow> p ! 0 = byte_of m \<and> length p = 32) \<and>
     (\<forall>m s. Confirmed m s \<in> set new \<longrightarrow>
        (s = 0 \<or> s = 1) \<and>
        (\<exists>t ack. (t, ack) \<in> set (tx_inbox st) \<and> length ack = 2 \<and>
           byte_at ack 0 = m AND 0xFF \<and> byte_at ack 1 = s))"
  using assms
proof (induction chunks arbitrary: n sent succeeded st)
  case Nil
  then have "tx_log (tx_final res) = tx_log st @ []" "success_data_chunks res = succeeded"
    "sent_data_chunks res = sent" "pck_num_final res = n"
    by auto
  with Nil.prems(2) show ?case
    by (intro exI [of _ "[]"]) auto
next
  case (Cons c chunks)
  from Cons.prems(1) obtain pck where pck: "make_packet n c = Inr pck"
    by (cases "make_packet n c") auto
  from Cons.prems pck obtain b st1 where
    send: "send_attempts R C n pck [1..MAX_RETRIES C] st = Inr (b, st1)"
    by (cases "send_attempts R C n pck [1..MAX_RETRIES C] st")
      (auto simp: send_with_retries_def)
  from send_attempts_log [OF send] obtain body final where
    seg: "tx_log st1 = tx_log st @ body @ [final]"
      "\<forall>e \<in> set body. \<not> is_confirmed e \<and> \<not> is_failed e \<and> event_pck_num e = n \<and>
         (\<forall>m a p d. e = DataSent m a p d \<longrightarrow> p = pck)"
      "if b then \<exists>status. final = Confirmed n status \<and> (status = 0 \<or> status = 1) \<and>
                   (\<exists>t ack. (t, ack) \<in> set (tx_inbox st) \<and> length ack = 2 \<and>
                      byte_at ack 0 = n AND 0xFF \<and> byte_at ack 1 = status)
       else final = ChunkFailed n"
      "set (tx_inbox st1) \<subseteq> set (tx_inbox st)"
    by blast
  from seg(2) have body_plain: "filter is_confirmed body = []" "filter is_failed body = []"
    by (simp_all add: filter_empty_conv)
  from seg(2) make_packet_Inr [OF pck]
  have body_sent: "\<forall>m a p d. DataSent m a p d \<in> set body \<longrightarrow> p ! 0 = byte_of m \<and> length p = 32"
    by fastforce
  from seg(2) have body_noconf: "Confirmed m s \<notin> set body" for m s
    by fastforce
  show ?case
  proof (cases b)
    case False
    with seg(3) have final: "final = ChunkFailed n"
      by simp
    from Cons.prems(1) pck send False
    have res: "tx_final res = st1" "success_data_chunks res = succeeded"
      "sent_data_chunks res = sent + 1" "pck_num_final res = n"
      by (auto simp: send_with_retries_def)
    have alt: "map event_pck_num (body @ [final]) = spec_alternating_from n (body @ [final])"
      using seg(2) final by (intro alternating_from_body) simp_all
    from res seg(1) final alt body_plain body_sent body_noconf Cons.prems(2) show ?thesis
      by (intro exI [of _ "body @ [final]"]) auto
  next
    case True
    with seg(3) obtain status where final: "final = Confirmed n status" "status = 0 \<or> status = 1"
      "\<exists>t ack. (t, ack) \<in> set (tx_inbox st) \<and> length ack = 2 \<and>
         byte_at ack 0 = n AND 0xFF \<and> byte_at ack 1 = status"
      by auto
    from Cons.prems(1) pck send True
    have rec: "tx_loop R C (n XOR 1) (sent + 1) (succeeded + 1) chunks st1 = Inr res"
      by (simp add: send_with_retries_def)
    from Cons.prems(2) have flip: "n XOR 1 = 1 - n" "1 - n = 0 \<or> 1 - n = 1"
      by (auto simp: flip_bit)
    from Cons.IH [OF rec [unfolded flip(1)] flip(2)] obtain new where
      new: "tx_log (tx_final res) = tx_log st1 @ new"
        "map event_pck_num new = spec_alternating_from (1 - n) new"
        "filter is_failed (butlast new) = []"
        "success_data_chunks res = succeeded + 1 + length (filter is_confirmed new)"
        "sent_data_chunks res =
           sent + 1 + length (filter is_confirmed new) + length (filter is_failed new)"
        "pck_num_final res = (1 - n + int (length (filter is_confirmed new))) mod 2"
        "\<forall>m a p d. DataSent m a p d \<in> set new \<longrightarrow> p ! 0 = byte_of m \<and> length p = 32"
        "\<forall>m s. Confirmed m s \<in> set new \<longrightarrow>
           (s = 0 \<or> s = 1) \<and>
           (\<exists>t ack. (t, ack) \<in> set (tx_inbox st1) \<and> length ack = 2 \<and>
              byte_at ack 0 = m AND 0xFF \<and> byte_at ack 1 = s)"
      by blast
    let ?all = "body @ final # new"
    have log: "tx_log (tx_final res) = tx_log st @ ?all"
      using new(1) seg(1) by simp
    have alt: "map event_pck_num ?all = spec_alternating_from n ?all"
      using seg(2) final(1) new(2) by (intro alternating_from_body) simp_all
    have nofail: "filter is_failed (butlast ?all) = []"
      using body_plain(2) final(1) new(3) by (cases new) (simp_all add: butlast_append)
    have succ: "success_data_chunks res = succeeded + length (filter is_confirmed ?all)"
      using new(4) body_plain(1) final(1) by simp
    have sent: "sent_data_chunks res =
        sent + length (filter is_confirmed ?all) + length (filter is_failed ?all)"
      using new(5) body_plain final(1) by simp
    have fin: "pck_num_final res = (n + int (length (filter is_confirmed ?all))) mod 2"
      using new(6) body_plain(1) final(1) Cons.prems(2) by auto
    have sentp: "\<forall>m a p d. DataSent m a p d \<in> set ?all \<longrightarrow> p ! 0 = byte_of m \<and> length p = 32"
    proof (intro allI impI)
      fix m a p d
      assume "DataSent m a p d \<in> set ?all"
      with final(1) consider "DataSent m a p d \<in> set body" | "DataSent m a p d \<in> set new"
        by auto
      then show "p ! 0 = byte_of m \<and> length p = 32"
        using body_sent new(7) by cases blast+
    qed
    have conf: "\<forall>m s. Confirmed m s \<in> set ?all \<longrightarrow>
           (s = 0 \<or> s = 1) \<and>
           (\<exists>t ack. (t, ack) \<in> set (tx_inbox st) \<and> length ack = 2 \<and>
              byte_at ack 0 = m AND 0xFF \<and> byte_at ack 1 = s)"
    proof (intro allI impI)
      fix m s
      assume "Confirmed m s \<in> set ?all"
      with body_noconf consider "Confirmed m s = final" | "Confirmed m s \<in> set new"
        by auto
      then show "(s = 0 \<or> s = 1) \<and>
           (\<exists>t ack. (t, ack) \<in> set (tx_inbox st) \<and> length ack = 2 \<and>
              byte_at ack 0 = m AND 0xFF \<and> byte_at ack 1 = s)"
      proof cases
        case 1
        with final show ?thesis
          by auto
      next
        case 2
        with new(8) seg(4) show ?thesis
          by blast
      qed
    qed
    from log alt nofail succ sent fin sentp conf show ?thesis
      by blast
  qed
qed

lemma data_for_file_Inr:
  "data_for_file data_r = Inr chunks \<Longrightarrow> \<exists>c cs. chunks = c # cs \<and> length c = 31"
  by (auto simp: data_for_file_def pack_u32_le_def ljust_def bytes_slice_def Let_def
      split: if_splits)

lemma data_for_file_defined:
  "length data_r < 2 ^ 32 \<Longrightarrow> \<exists>chunks. data_for_file data_r = Inr chunks"
  by (simp add: data_for_file_def pack_u32_le_def Let_def)

lemma alternating_confirmed:
  assumes "map event_pck_num es = spec_alternating_from n es" and "n = 0 \<or> n = 1"
  shows "map event_pck_num (filter is_confirmed es) =
           map (\<lambda>i. (n + int i) mod 2) [0..<length (filter is_confirmed es)]"
  using assms
proof (induction es arbitrary: n)
  case Nil
  then show ?case by simp
next
  case (Cons e es)
  show ?case
  proof (cases "is_confirmed e")
    case False
    with Cons.prems have "map event_pck_num es = spec_alternating_from n es"
      by simp
    from Cons.IH [OF this Cons.prems(2)] False show ?thesis
      by simp
  next
    case True
    with Cons.prems have e: "event_pck_num e = n"
      and rest: "map event_pck_num es = spec_alternating_from (1 - n) es"
      by simp_all
    from Cons.prems(2) have flip: "1 - n = 0 \<or> 1 - n = 1"
      by auto
    let ?k = "length (filter is_confirmed es)"
    have "[0..<Suc ?k] = 0 # map Suc [0..<?k]"
      by (simp add: upt_conv_Cons map_Suc_upt del: upt_Suc)
    then have "map (\<lambda>i. (n + int i) mod 2) [0..<Suc ?k] =
        (n mod 2) # map (\<lambda>i. (n + int (Suc i)) mod 2) [0..<?k]"
      by (simp add: comp_def del: upt_Suc)
    also have "\<dots> = n # map (\<lambda>i. (1 - n + int i) mod 2) [0..<?k]"
      using Cons.prems(2) by (auto simp: mod_simps)
    finally show ?thesis
      using True e Cons.IH [OF rest flip] by (simp del: upt_Suc)
  qed
qed

lemma matching_ack_bytes:
  assumes "length ack = 2" and "byte_at ack 0 = m AND 0xFF" and "byte_at ack 1 = s"
  shows "ack = [byte_of m, byte_of s]"
proof -
  from assms(1) obtain a b where ack: "ack = [a, b]"
    by (cases ack; cases "tl ack") auto
  from assms(2) ack have "byte_of m = a"
    by (simp add: byte_of_def byte_at_def flip: assms(2))
  moreover from assms(3) ack have "byte_of s = b"
    using byte_of_byte_at [of ack 1] by simp
  ultimately show ?thesis
    using ack by simp
qed

text \<open>
  C7. In every run of the sender the sequence number starts at 0 and changes only by
  flipping between 0 and 1 right after a confirmation: the sequence numbers of the events
  of the log are those of \<open>spec_alternating_from 0\<close>. So the confirmed chunks carry 0, 1, 0, 1,
  and so on, and the number left at the end is the parity of the count of confirmed
  chunks. Every confirmation rests on an Ack that arrived, echoing that sequence number
  with status \<open>OK\<close> (0) or \<open>DUPLICATE\<close> (1), and every packet sent carries the
  sequence number of its chunk in its first byte.
\<close>

theorem sequence_numbers_alternate:
  assumes run: "tx_main R C seed data_r acks = Inr res"
  shows "map event_pck_num (tx_log (tx_final res)) =
           spec_alternating_from 0 (tx_log (tx_final res)) \<and>
         map event_pck_num (filter is_confirmed (tx_log (tx_final res))) =
           map (\<lambda>i. int (i mod 2)) [0..<success_data_chunks res] \<and>
         pck_num_final res = int (success_data_chunks res mod 2) \<and>
         (\<forall>m s. Confirmed m s \<in> set (tx_log (tx_final res)) \<longrightarrow>
            (s = 0 \<or> s = 1) \<and> (\<exists>t. (t, [byte_of m, byte_of s]) \<in> set acks)) \<and>
         (\<forall>m a p d. DataSent m a p d \<in> set (tx_log (tx_final res)) \<longrightarrow> p ! 0 = byte_of m)"
proof -
  let ?st0 = "\<lparr>tx_rng = random_seed R seed, tx_now = 0, tx_inbox = acks, tx_log = []\<rparr>"
  from run obtain chunks where loop: "tx_loop R C 0 0 0 chunks ?st0 = Inr res"
    by (auto simp: tx_main_def split: sum.splits if_splits)
  from tx_loop_log [OF loop] obtain new where
    new: "tx_log (tx_final res) = new"
      "map event_pck_num new = spec_alternating_from 0 new"
      "success_data_chunks res = length (filter is_confirmed new)"
      "pck_num_final res = int (length (filter is_confirmed new)) mod 2"
      "\<forall>m a p d. DataSent m a p d \<in> set new \<longrightarrow> p ! 0 = byte_of m \<and> length p = 32"
      "\<forall>m s. Confirmed m s \<in> set new \<longrightarrow>
         (s = 0 \<or> s = 1) \<and>
         (\<exists>t ack. (t, ack) \<in> set acks \<and> length ack = 2 \<and>
            byte_at ack 0 = m AND 0xFF \<and> byte_at ack 1 = s)"
    by auto
  from alternating_confirmed [OF new(2)] new(3)
  have conf: "map event_pck_num (filter is_confirmed new) =
      map (\<lambda>i. int (i mod 2)) [0..<success_data_chunks res]"
    by (simp add: zmod_int)
  have acked: "(s = 0 \<or> s = 1) \<and> (\<exists>t. (t, [byte_of m, byte_of s]) \<in> set acks)"
    if "Confirmed m s \<in> set new" for m s
  proof -
    from new(6) that obtain t ack where "s = 0 \<or> s = 1" "(t, ack) \<in> set acks"
      "length ack = 2" "byte_at ack 0 = m AND 0xFF" "byte_at ack 1 = s"
      by blast
    with matching_ack_bytes [of ack m s] show ?thesis
      by auto
  qed
  from new(1,2,4,5) new(3) conf acked show ?thesis
    by (simp add: zmod_int)
qed

lemmas tx_eval =
  tx_main_def data_for_file_def pack_u32_le_def ljust_def bytes_slice_def rest_chunks.simps
  make_packet_def DATA_BYTES_def send_with_retries_def transmit_def random_delay_def
  counter_rng_def default_tx_config_def byte_of_def byte_at_def ACK_LEN_def Let_def
  and_255_mod upto.simps

lemma tx_two_chunks_example:
  "\<exists>res. tx_main counter_rng default_tx_config 1 (replicate 50 7)
            [(400, [0, 0]), (900, [1, 0])] = Inr res \<and>
         success_data_chunks res = 2 \<and> sent_data_chunks res = 2"
  by (simp add: tx_eval)

theorem sequence_numbers_alternate_witness:
  "\<exists>res. tx_main counter_rng default_tx_config 1 (replicate 50 7)
            [(400, [0, 0]), (900, [1, 0])] = Inr res \<and>
         map event_pck_num (filter is_confirmed (tx_log (tx_final res))) = [0, 1] \<and>
         pck_num_final res = 0"
proof -
  from tx_two_chunks_example obtain res where
    run: "tx_main counter_rng default_tx_config 1 (replicate 50 7)
            [(400, [0, 0]), (900, [1, 0])] = Inr res"
    and two: "success_data_chunks res = 2"
    by blast
  have "[0..<2] = [0, 1]"
    by (simp add: upt_rec)
  with sequence_numbers_alternate [OF run] two
  have "map event_pck_num (filter is_confirmed (tx_log (tx_final res))) = [0, 1]"
    and "pck_num_final res = 0"
    by simp_all
  with run show ?thesis
    by (intro exI [of _ res]) simp
qed

lemma counter_rng_below_1: "fst (random_random counter_rng g) < 1"
proof -
  have "g mod 4 < 4"
    by simp
  then have "real (g mod 4) < 4"
    by (metis of_nat_less_iff of_nat_numeral)
  then show ?thesis
    by (simp add: counter_rng_def)
qed

text \<open>
  C2, for a positive timeout. Suppose that every Data send is suppressed: the loss
  probability is 1 and \<open>random.random()\<close> returns floats below 1. Then nothing reaches the
  receiver, so no Ack confirms anything; the hypothesis on the Ack socket says so (no
  datagram that arrives is an Ack with status 0 or 1). With a positive timeout
  \<open>send_with_retries\<close> then makes exactly one attempt for each of the numbers
  \<open>1..MAX_RETRIES\<close>, each of them a drop, and reports failure; and \<open>main\<close> stops with the
  first chunk: one chunk tried, none delivered, \<open>MAX_RETRIES\<close> attempts in the whole log
  (none for a negative setting), whose last event is the failure of chunk 0. In every run
  that \<open>main\<close> finishes, with or without loss, a failure is the last event of the log: once
  a chunk has failed no later chunk is built or sent, and the chunks tried are the chunks
  delivered and the failed one.
\<close>

theorem forced_loss_bounded_retries:
  "(LOSS_DATA_PROB C = 1 \<and> (\<forall>g. fst (random_random R g) < 1) \<and> 0 < RTT_TIMEOUT_MS C \<and>
    (\<forall>(t, ack) \<in> set (tx_inbox st).
        \<not> (length ack = 2 \<and> (byte_at ack 1 = 0 \<or> byte_at ack 1 = 1))) \<longrightarrow>
      (\<exists>st'. send_with_retries R C pck_num pck st = Inr (False, st') \<and>
         filter is_attempt (tx_log st') =
           filter is_attempt (tx_log st) @ map (DataDropped pck_num) [1..MAX_RETRIES C] \<and>
         last (tx_log st') = ChunkFailed pck_num)) \<and>
   (LOSS_DATA_PROB C = 1 \<and> (\<forall>g. fst (random_random R g) < 1) \<and> 0 < RTT_TIMEOUT_MS C \<and>
    (\<forall>(t, ack) \<in> set acks.
        \<not> (length ack = 2 \<and> (byte_at ack 1 = 0 \<or> byte_at ack 1 = 1))) \<and>
    length data_r < 2 ^ 32 \<longrightarrow>
      (\<exists>res. tx_main R C seed data_r acks = Inr res \<and>
         sent_data_chunks res = 1 \<and> success_data_chunks res = 0 \<and>
         filter is_attempt (tx_log (tx_final res)) = map (DataDropped 0) [1..MAX_RETRIES C] \<and>
         length (filter is_attempt (tx_log (tx_final res))) = nat (MAX_RETRIES C) \<and>
         last (tx_log (tx_final res)) = ChunkFailed 0)) \<and>
   (tx_main R C seed data_r acks = Inr res \<longrightarrow>
      filter is_failed (butlast (tx_log (tx_final res))) = [] \<and>
      sent_data_chunks res =
        success_data_chunks res + length (filter is_failed (tx_log (tx_final res))))"
proof (intro conjI impI)
  have single: "\<exists>st'. send_with_retries R C n p s = Inr (False, st') \<and>
         filter is_attempt (tx_log st') =
           filter is_attempt (tx_log s) @ map (DataDropped n) [1..MAX_RETRIES C] \<and>
         last (tx_log st') = ChunkFailed n"
    if loss: "LOSS_DATA_PROB C = 1" and draws: "\<forall>g. fst (random_random R g) < 1"
      and pos: "0 < RTT_TIMEOUT_MS C"
      and quiet: "\<forall>(t, ack) \<in> set (tx_inbox s).
        \<not> (length ack = 2 \<and> (byte_at ack 1 = 0 \<or> byte_at ack 1 = 1))"
    for n p s
  proof -
    from loss draws have "fst (random_random R g) < LOSS_DATA_PROB C" for g
      by simp
    from send_attempts_forced_loss [of R C s n p "[1..MAX_RETRIES C]", OF this pos quiet]
    obtain st' where st': "send_attempts R C n p [1..MAX_RETRIES C] s = Inr (False, st')"
      "filter is_attempt (tx_log st') =
         filter is_attempt (tx_log s) @ map (DataDropped n) [1..MAX_RETRIES C]"
      by blast
    from send_attempts_log [OF st'(1)] have "last (tx_log st') = ChunkFailed n"
      by auto
    with st' show ?thesis
      by (simp add: send_with_retries_def)
  qed
  {
    assume "LOSS_DATA_PROB C = 1 \<and> (\<forall>g. fst (random_random R g) < 1) \<and>
      0 < RTT_TIMEOUT_MS C \<and>
      (\<forall>(t, ack) \<in> set (tx_inbox st).
        \<not> (length ack = 2 \<and> (byte_at ack 1 = 0 \<or> byte_at ack 1 = 1)))"
    then show "\<exists>st'. send_with_retries R C pck_num pck st = Inr (False, st') \<and>
         filter is_attempt (tx_log st') =
           filter is_attempt (tx_log st) @ map (DataDropped pck_num) [1..MAX_RETRIES C] \<and>
         last (tx_log st') = ChunkFailed pck_num"
      by (intro single) simp_all
  }
  {
    assume h: "LOSS_DATA_PROB C = 1 \<and> (\<forall>g. fst (random_random R g) < 1) \<and>
      0 < RTT_TIMEOUT_MS C \<and>
      (\<forall>(t, ack) \<in> set acks.
        \<not> (length ack = 2 \<and> (byte_at ack 1 = 0 \<or> byte_at ack 1 = 1))) \<and>
      length data_r < 2 ^ 32"
    let ?st0 = "\<lparr>tx_rng = random_seed R seed, tx_now = 0, tx_inbox = acks, tx_log = []\<rparr>"
    from h data_for_file_defined [of data_r] obtain chunks
      where chunks: "data_for_file data_r = Inr chunks"
      by blast
    from data_for_file_Inr [OF this] obtain c cs where c: "chunks = c # cs" "length c = 31"
      by blast
    then have pck: "make_packet 0 c = Inr (byte_of 0 # c)"
      by (simp add: make_packet_def DATA_BYTES_def)
    from h have "\<exists>st'. send_with_retries R C 0 (byte_of 0 # c) ?st0 = Inr (False, st') \<and>
         filter is_attempt (tx_log st') =
           filter is_attempt (tx_log ?st0) @ map (DataDropped 0) [1..MAX_RETRIES C] \<and>
         last (tx_log st') = ChunkFailed 0"
      by (intro single) simp_all
    then obtain st' where
      st': "send_with_retries R C 0 (byte_of 0 # c) ?st0 = Inr (False, st')"
        "filter is_attempt (tx_log st') = map (DataDropped 0) [1..MAX_RETRIES C]"
        "last (tx_log st') = ChunkFailed 0"
      by auto
    from h chunks c pck st'(1)
    have "tx_main R C seed data_r acks =
        Inr \<lparr>pck_num_final = 0, sent_data_chunks = 1, success_data_chunks = 0,
             tx_final = st'\<rparr>"
      by (simp add: tx_main_def)
    with st'(2,3)
    show "\<exists>res. tx_main R C seed data_r acks = Inr res \<and>
         sent_data_chunks res = 1 \<and> success_data_chunks res = 0 \<and>
         filter is_attempt (tx_log (tx_final res)) = map (DataDropped 0) [1..MAX_RETRIES C] \<and>
         length (filter is_attempt (tx_log (tx_final res))) = nat (MAX_RETRIES C) \<and>
         last (tx_log (tx_final res)) = ChunkFailed 0"
      by simp
  }
  {
    assume run: "tx_main R C seed data_r acks = Inr res"
    let ?st0 = "\<lparr>tx_rng = random_seed R seed, tx_now = 0, tx_inbox = acks, tx_log = []\<rparr>"
    from run obtain chunks where loop: "tx_loop R C 0 0 0 chunks ?st0 = Inr res"
      by (auto simp: tx_main_def split: sum.splits if_splits)
    from tx_loop_log [OF loop]
    show "filter is_failed (butlast (tx_log (tx_final res))) = []"
      and "sent_data_chunks res =
        success_data_chunks res + length (filter is_failed (tx_log (tx_final res)))"
      by auto
  }
qed

theorem forced_loss_bounded_retries_witness:
  "\<exists>res. tx_main counter_rng (default_tx_config\<lparr>LOSS_DATA_PROB := 1\<rparr>) 12 (replicate 50 7) []
           = Inr res \<and>
         sent_data_chunks res = 1 \<and> success_data_chunks res = 0 \<and>
         filter is_attempt (tx_log (tx_final res)) =
           [DataDropped 0 1, DataDropped 0 2, DataDropped 0 3, DataDropped 0 4, DataDropped 0 5] \<and>
         last (tx_log (tx_final res)) = ChunkFailed 0"
proof -
  let ?C = "default_tx_config\<lparr>LOSS_DATA_PROB := 1\<rparr>"
  have h: "LOSS_DATA_PROB ?C = 1 \<and> (\<forall>g. fst (random_random counter_rng g) < 1) \<and>
    0 < RTT_TIMEOUT_MS ?C \<and>
    (\<forall>(t, ack) \<in> set ([] :: inbox).
        \<not> (length ack = 2 \<and> (byte_at ack 1 = 0 \<or> byte_at ack 1 = 1))) \<and>
    length (replicate 50 (7::byte)) < 2 ^ 32"
    by (simp add: counter_rng_below_1 default_tx_config_def)
  have attempts: "map (DataDropped 0) [1..MAX_RETRIES ?C] =
      [DataDropped 0 1, DataDropped 0 2, DataDropped 0 3, DataDropped 0 4, DataDropped 0 5]"
    by (simp add: default_tx_config_def upto.simps)
  from forced_loss_bounded_retries [where C = ?C and R = counter_rng and acks = "[]"
      and data_r = "replicate 50 7" and seed = 12] h
  obtain res where "tx_main counter_rng ?C 12 (replicate 50 7) [] = Inr res"
    "sent_data_chunks res = 1" "success_data_chunks res = 0"
    "filter is_attempt (tx_log (tx_final res)) = map (DataDropped 0) [1..MAX_RETRIES ?C]"
    "last (tx_log (tx_final res)) = ChunkFailed 0"
    by blast
  with attempts show ?thesis
    by (intro exI [of _ res]) simp
qed

text \<open>
  The claim as it is written fails on the code for a timeout of zero, which
  \<open>--timeout-ms 0\<close> sets: the Ack socket is then non-blocking, and in the first attempt,
  after the simulated drop, \<open>recvfrom\<close> finds no datagram and raises \<open>BlockingIOError\<close>.
  \<open>wait_for_ack\<close> catches \<open>socket.timeout\<close> only, so \<open>send_with_retries\<close> makes one attempt,
  not \<open>MAX_RETRIES\<close>, and reports nothing: the exception ends the program.
\<close>

theorem forced_loss_zero_timeout_counterexample:
  "send_with_retries counter_rng (default_tx_config\<lparr>LOSS_DATA_PROB := 1, RTT_TIMEOUT_MS := 0\<rparr>)
     0 (0 # replicate 31 0)
     \<lparr>tx_rng = random_seed counter_rng 12, tx_now = 0, tx_inbox = [], tx_log = []\<rparr> =
     Inl BlockingIOError \<and>
   tx_main counter_rng (default_tx_config\<lparr>LOSS_DATA_PROB := 1, RTT_TIMEOUT_MS := 0\<rparr>) 12
     (replicate 50 7) [] = Inl BlockingIOError \<and>
   MAX_RETRIES (default_tx_config\<lparr>LOSS_DATA_PROB := 1, RTT_TIMEOUT_MS := 0\<rparr>) = 5"
  by (simp add: tx_eval)

lemma accept_new_rng: "accept_new st n data = Inr st' \<Longrightarrow> rx_rng st' = rx_rng st"
  by (auto simp: accept_new_def file_write_def Let_def split: option.splits if_splits)

lemma send_ack_policy:
  "send_ack R C g ack = (ev, g') \<Longrightarrow>
     spec_loss_delay_policy R (LOSS_ACK_PROB C) (ACK_DELAY_MS_MIN C) (ACK_DELAY_MS_MAX C) g =
       (ack_decision ev, g')"
  by (auto simp: send_ack_def spec_loss_delay_policy_def random_delay_def Let_def
      split: prod.splits if_splits)

lemma send_bad_length_ack_policy:
  "send_bad_length_ack R C g ack = (ev, g') \<Longrightarrow>
     spec_loss_delay_policy R (LOSS_ACK_PROB C) (ACK_DELAY_MS_MIN C) (ACK_DELAY_MS_MAX C) g =
       (ack_decision ev, g')"
  by (auto simp: send_bad_length_ack_def spec_loss_delay_policy_def random_delay_def Let_def
      split: prod.splits if_splits)

lemma rx_step_policy:
  assumes "rx_step R C st pck = Inr (ctl, ev, st')"
  shows "spec_loss_delay_policy R (LOSS_ACK_PROB C) (ACK_DELAY_MS_MIN C) (ACK_DELAY_MS_MAX C)
           (rx_rng st) = (ack_decision ev, rx_rng st')"
proof (cases "length pck = 32")
  case False
  with assms show ?thesis
    by (auto simp: rx_step_def DATA_PCK_LEN_def split: prod.splits
        dest: send_bad_length_ack_policy)
next
  case True
  with assms show ?thesis
    by (auto simp: rx_step_def DATA_PCK_LEN_def Let_def split: prod.splits sum.splits if_splits
        dest!: send_ack_policy accept_new_rng)
qed

lemma rx_loop_policy:
  "rx_loop R C st datagrams = (evs, outcome) \<Longrightarrow>
     map ack_decision evs =
       fst (spec_policy_run R (LOSS_ACK_PROB C) (ACK_DELAY_MS_MIN C) (ACK_DELAY_MS_MAX C)
              (rx_rng st) (length evs))"
proof (induction datagrams arbitrary: st evs outcome)
  case Nil
  then show ?case by simp
next
  case (Cons pck rest)
  show ?case
  proof (cases "rx_step R C st pck")
    case (Inl e)
    with Cons.prems show ?thesis
      by simp
  next
    case (Inr r)
    obtain ctl ev st' where r: "r = (ctl, ev, st')"
      by (cases r)
    note pol = rx_step_policy [OF Inr [unfolded r]]
    show ?thesis
    proof (cases ctl)
      case Break
      with Cons.prems Inr r have "evs = [ev]"
        by simp
      with pol show ?thesis
        by simp
    next
      case Continue
      obtain evs' outcome' where rec: "rx_loop R C st' rest = (evs', outcome')"
        by (cases "rx_loop R C st' rest")
      with Cons.prems Inr r Continue have evs: "evs = ev # evs'"
        by simp
      from Cons.IH [OF rec] pol evs show ?thesis
        by (simp split: prod.splits)
    qed
  qed
qed

lemma tx_loop_policy:
  "tx_loop R C n sent succeeded chunks st = Inr res \<Longrightarrow>
   \<exists>new. tx_log (tx_final res) = tx_log st @ new \<and>
     spec_policy_run R (LOSS_DATA_PROB C) (DATA_DELAY_MS_MIN C) (DATA_DELAY_MS_MAX C) (tx_rng st)
       (length (filter is_attempt new)) =
         (map tx_decision (filter is_attempt new), tx_rng (tx_final res))"
proof (induction chunks arbitrary: n sent succeeded st)
  case Nil
  then have "tx_final res = st"
    by auto
  then show ?case
    by (intro exI [of _ "[]"]) simp
next
  case (Cons c chunks)
  let ?run = "spec_policy_run R (LOSS_DATA_PROB C) (DATA_DELAY_MS_MIN C) (DATA_DELAY_MS_MAX C)"
  from Cons.prems obtain pck where pck: "make_packet n c = Inr pck"
    by (cases "make_packet n c") auto
  from Cons.prems pck obtain b st1 where
    send: "send_attempts R C n pck [1..MAX_RETRIES C] st = Inr (b, st1)"
    by (cases "send_attempts R C n pck [1..MAX_RETRIES C] st")
      (auto simp: send_with_retries_def)
  from send_attempts_policy [OF send] obtain seg where
    seg: "tx_log st1 = tx_log st @ seg"
      "?run (tx_rng st) (length (filter is_attempt seg)) =
         (map tx_decision (filter is_attempt seg), tx_rng st1)"
    by blast
  show ?case
  proof (cases b)
    case False
    with Cons.prems pck send have "tx_final res = st1"
      by (auto simp: send_with_retries_def)
    with seg show ?thesis
      by auto
  next
    case True
    with Cons.prems pck send
    have "tx_loop R C (n XOR 1) (sent + 1) (succeeded + 1) chunks st1 = Inr res"
      by (simp add: send_with_retries_def)
    from Cons.IH [OF this] obtain new where
      new: "tx_log (tx_final res) = tx_log st1 @ new"
        "?run (tx_rng st1) (length (filter is_attempt new)) =
           (map tx_decision (filter is_attempt new), tx_rng (tx_final res))"
      by blast
    from seg(2) new(2)
    have "?run (tx_rng st) (length (filter is_attempt seg) + length (filter is_attempt new)) =
        (map tx_decision (filter is_attempt seg) @ map tx_decision (filter is_attempt new),
         tx_rng (tx_final res))"
      by (simp add: policy_run_append)
    with seg(1) new(1) show ?thesis
      by (intro exI [of _ "seg @ new"]) simp
  qed
qed

lemma fst_policy_run_Suc:
  "fst (spec_policy_run R p lo hi g (Suc n)) =
     fst (spec_loss_delay_policy R p lo hi g)
       # fst (spec_policy_run R p lo hi (snd (spec_loss_delay_policy R p lo hi g)) n)"
  by (simp add: Let_def case_prod_beta)

lemma policy_run_prefix:
  "j \<le> k \<Longrightarrow> fst (spec_policy_run R p lo hi g j) = take j (fst (spec_policy_run R p lo hi g k))"
proof (induction j arbitrary: g k)
  case 0
  then show ?case by simp
next
  case (Suc j)
  then obtain k' where k: "k = Suc k'" "j \<le> k'"
    by (cases k) auto
  from Suc.IH [OF k(2)] k(1) show ?case
    by (simp only: fst_policy_run_Suc take_Suc_Cons)
qed

text \<open>
  C9. The decisions of the loss/delay policy in a run (suppress, or deliver after a delay)
  are those that the policy of the specification makes from the generator state of the
  seed, one after the other: they depend on the seed, the loss probability and the delay
  bounds, and on nothing that the endpoint receives or reads. Hence two runs with the
  same seed and settings agree on all the decisions that both of them make, even on
  different inputs; on the same input they are the same run, since every function of the
  model (and so the final output) is determined by seed, settings and input. This holds
  for the receiver and its Acks and for the sender and its Data packets.
\<close>

theorem decisions_determined_by_seed:
  "(rx_main R C seed datagrams = (evs, outcome) \<longrightarrow>
      map ack_decision evs =
        fst (spec_policy_run R (LOSS_ACK_PROB C) (ACK_DELAY_MS_MIN C) (ACK_DELAY_MS_MAX C)
               (random_seed R seed) (length evs))) \<and>
   (rx_main R C seed datagrams = (evs, outcome) \<and>
    rx_main R C seed datagrams' = (evs', outcome') \<and> length evs \<le> length evs' \<longrightarrow>
      map ack_decision evs = take (length evs) (map ack_decision evs')) \<and>
   (tx_main T D tx_seed data_r acks = Inr res \<longrightarrow>
      map tx_decision (filter is_attempt (tx_log (tx_final res))) =
        fst (spec_policy_run T (LOSS_DATA_PROB D) (DATA_DELAY_MS_MIN D) (DATA_DELAY_MS_MAX D)
               (random_seed T tx_seed) (length (filter is_attempt (tx_log (tx_final res)))))) \<and>
   (tx_main T D tx_seed data_r acks = Inr res \<and>
    tx_main T D tx_seed data_r' acks' = Inr res' \<and>
    length (filter is_attempt (tx_log (tx_final res)))
      \<le> length (filter is_attempt (tx_log (tx_final res'))) \<longrightarrow>
      map tx_decision (filter is_attempt (tx_log (tx_final res))) =
        take (length (filter is_attempt (tx_log (tx_final res))))
          (map tx_decision (filter is_attempt (tx_log (tx_final res')))))"
proof -
  let ?rx = "spec_policy_run R (LOSS_ACK_PROB C) (ACK_DELAY_MS_MIN C) (ACK_DELAY_MS_MAX C)
               (random_seed R seed)"
  let ?tx = "spec_policy_run T (LOSS_DATA_PROB D) (DATA_DELAY_MS_MIN D) (DATA_DELAY_MS_MAX D)
               (random_seed T tx_seed)"
  have rx: "map ack_decision es = fst (?rx (length es))"
    if "rx_main R C seed ds = (es, out)" for ds es out
    using rx_loop_policy [of R C "rx_init R seed" ds es out] that
    by (simp add: rx_main_def rx_init_def)
  have tx: "map tx_decision (filter is_attempt (tx_log (tx_final r))) =
      fst (?tx (length (filter is_attempt (tx_log (tx_final r)))))"
    if "tx_main T D tx_seed d a = Inr r" for d a r
  proof -
    let ?st0 = "\<lparr>tx_rng = random_seed T tx_seed, tx_now = 0, tx_inbox = a, tx_log = []\<rparr>"
    from that obtain chunks where "tx_loop T D 0 0 0 chunks ?st0 = Inr r"
      by (auto simp: tx_main_def split: sum.splits if_splits)
    from tx_loop_policy [OF this] show ?thesis
      by auto
  qed
  have rx2: "map ack_decision evs = take (length evs) (map ack_decision evs')"
    if "rx_main R C seed datagrams = (evs, outcome)"
      and "rx_main R C seed datagrams' = (evs', outcome')" and "length evs \<le> length evs'"
    using rx [OF that(1)] rx [OF that(2)] policy_run_prefix [OF that(3)]
    by simp
  have tx2: "map tx_decision (filter is_attempt (tx_log (tx_final res))) =
        take (length (filter is_attempt (tx_log (tx_final res))))
          (map tx_decision (filter is_attempt (tx_log (tx_final res'))))"
    if "tx_main T D tx_seed data_r acks = Inr res"
      and "tx_main T D tx_seed data_r' acks' = Inr res'"
      and "length (filter is_attempt (tx_log (tx_final res)))
        \<le> length (filter is_attempt (tx_log (tx_final res')))"
    using tx [OF that(1)] tx [OF that(2)] policy_run_prefix [OF that(3)]
    by simp
  from rx rx2 tx tx2 show ?thesis
    by blast
qed

lemma rx_two_packets_example:
  "rx_main counter_rng default_rx_config 0
     [0 # [50, 0, 0, 0] @ replicate 27 7, 1 # replicate 31 8] =
   ([AckDropped [0, 0], AckSent [1, 0] 27],
    RxFinished
      \<lparr>last_delivered_pck_num = Some 1, expected_total_len = Some 50, bytes_written = 50,
       out_f = replicate 27 7 @ replicate 23 8, out_f_closed = True, is_done = True,
       rx_rng = 3\<rparr>)"
  by (simp add: rx_main_def rx_eval)

theorem decisions_determined_by_seed_witness:
  "fst (spec_policy_run counter_rng (LOSS_ACK_PROB default_rx_config)
          (ACK_DELAY_MS_MIN default_rx_config) (ACK_DELAY_MS_MAX default_rx_config)
          (random_seed counter_rng 0) 2) = [Suppress, Deliver 27] \<and>
   (\<exists>res. tx_main counter_rng default_tx_config 1 (replicate 50 7)
            [(400, [0, 0]), (900, [1, 0])] = Inr res \<and>
      map tx_decision (filter is_attempt (tx_log (tx_final res))) =
        fst (spec_policy_run counter_rng (LOSS_DATA_PROB default_tx_config)
               (DATA_DELAY_MS_MIN default_tx_config) (DATA_DELAY_MS_MAX default_tx_config)
               (random_seed counter_rng 1)
               (length (filter is_attempt (tx_log (tx_final res))))))"
proof -
  from tx_two_chunks_example obtain res where
    run: "tx_main counter_rng default_tx_config 1 (replicate 50 7)
            [(400, [0, 0]), (900, [1, 0])] = Inr res"
    by blast
  from decisions_determined_by_seed [where R = counter_rng and C = default_rx_config
      and seed = 0 and T = counter_rng and D = default_tx_config and tx_seed = 1
      and datagrams = "[0 # [50, 0, 0, 0] @ replicate 27 7, 1 # replicate 31 8]"
      and evs = "[AckDropped [0, 0], AckSent [1, 0] 27]"
      and data_r = "replicate 50 7" and acks = "[(400, [0, 0]), (900, [1, 0])]" and res = res]
    rx_two_packets_example run
  have "map ack_decision [AckDropped [0, 0], AckSent [1, 0] 27] =
      fst (spec_policy_run counter_rng (LOSS_ACK_PROB default_rx_config)
          (ACK_DELAY_MS_MIN default_rx_config) (ACK_DELAY_MS_MAX default_rx_config)
          (random_seed counter_rng 0) (length [AckDropped [0, 0], AckSent [1, 0] 27]))"
    and "map tx_decision (filter is_attempt (tx_log (tx_final res))) =
        fst (spec_policy_run counter_rng (LOSS_DATA_PROB default_tx_config)
               (DATA_DELAY_MS_MIN default_tx_config) (DATA_DELAY_MS_MAX default_tx_config)
               (random_seed counter_rng 1)
               (length (filter is_attempt (tx_log (tx_final res)))))"
    by blast+
  note rx = this(1) and tx = this(2)
  have len: "length [AckDropped [0, 0], AckSent [1, 0] 27] = 2"
    by simp
  have dec: "map ack_decision [AckDropped [0, 0], AckSent [1, 0] 27] = [Suppress, Deliver 27]"
    by simp
  from rx have "fst (spec_policy_run counter_rng (LOSS_ACK_PROB default_rx_config)
          (ACK_DELAY_MS_MIN default_rx_config) (ACK_DELAY_MS_MAX default_rx_config)
          (random_seed counter_rng 0) 2) = [Suppress, Deliver 27]"
    by (simp only: len dec)
  with run tx show ?thesis
    by blast
qed

end
